theory Spec2Isabelle
  imports Main "HOL-Library.Word"
begin

unbundle bit_operations_syntax

section \<open>The free-list allocator of allocator.cpp\<close>

text \<open>
  The allocator manages one static buffer \<open>heap_buffer\<close> of \<open>HEAP_SIZE\<close> bytes. Every
  block starts with a \<open>BlockHeader\<close> (total size, free flag, free-list link) that is
  followed by the caller's bytes.

  Addresses are byte offsets from the first byte of \<open>heap_buffer\<close>, as mathematical
  integers (an address below the buffer is a negative offset), and a pointer is an
  \<open>int option\<close> whose \<open>None\<close> is \<open>nullptr\<close>. Values of type \<open>size_t\<close> are integers in
  \<open>[0, 2^64)\<close>; every \<open>size_t\<close> operation of the source is followed by \<open>wrap\<close>,
  the reduction modulo \<open>2^64\<close> of a 64-bit target, where \<open>sizeof(BlockHeader)\<close> is 24
  (8 bytes of size, 1 byte of flag and 7 of padding, 8 bytes of pointer).

  The memory is a store from addresses to the header last written at that address;
  what \<open>memset\<close> leaves is the all-zero header. The store keeps headers at different
  addresses apart. The buffer does so only for headers at least 24 bytes from each other:
  there a header is 24 bytes of one \<open>char\<close> array, and a write to a header changes every
  header that starts less than 24 bytes away. Store and buffer therefore agree on the
  headers of the current blocks of a heap whose blocks are at least 24 bytes long (every
  well-formed heap below, where blocks have at least 32 bytes), and on the headers of
  blocks of size 0 that nothing overlaps. They do not agree on a header left behind
  inside a merged block once a later header is written less than 24 bytes from it: the
  store still holds the old flag, the buffer does not. The theorems below read current
  blocks only. The caller's own writes into the bytes handed out are not part of the
  model.
\<close>

subsection \<open>Constants and the block header (allocator.h)\<close>

definition ALIGN_SIZE :: int where
  "ALIGN_SIZE = 8"

definition HEAP_SIZE :: int where
  "HEAP_SIZE = 1024 * 1024"

definition sizeof_BlockHeader :: int where
  "sizeof_BlockHeader = 24"

definition wrap :: "int \<Rightarrow> int" where
  "wrap x = x mod 2 ^ 64"

record BlockHeader =
  bsize :: int
  is_free :: bool
  bnext :: "int option"

definition zero_header :: BlockHeader where
  "zero_header = \<lparr>bsize = 0, is_free = False, bnext = None\<rparr>"

definition get_data :: "int \<Rightarrow> int" where
  "get_data block = block + sizeof_BlockHeader"

definition get_header :: "int \<Rightarrow> int" where
  "get_header ptr = ptr - sizeof_BlockHeader"

record allocator =
  heap_buffer :: "int \<Rightarrow> BlockHeader"
  free_list :: "int option"

subsection \<open>Helpers and initialisation\<close>

definition align_size :: "int \<Rightarrow> int" where
  "align_size sz = (wrap (wrap (sz + ALIGN_SIZE) - 1)) AND (wrap (NOT (wrap (ALIGN_SIZE - 1))))"

text \<open>What \<open>memset(heap_buffer, 0, HEAP_SIZE)\<close> leaves at every address.\<close>

definition cleared :: "int \<Rightarrow> BlockHeader" where
  "cleared a = zero_header"

definition init_allocator :: allocator where
  "init_allocator =
     \<lparr>heap_buffer = cleared(0 := \<lparr>bsize = HEAP_SIZE, is_free = True, bnext = None\<rparr>),
      free_list = Some 0\<rparr>"

definition is_valid_ptr :: "int \<Rightarrow> bool" where
  "is_valid_ptr ptr = (0 \<le> ptr \<and> ptr < HEAP_SIZE)"

definition get_min_block_size :: int where
  "get_min_block_size = align_size (wrap (sizeof_BlockHeader + 1))"

subsection \<open>Splitting\<close>

text \<open>
  \<open>split_block\<close> always returns its argument \<open>block\<close>, so the model returns the new
  memory only. The four assignments are kept in the order of the source, which matters
  when \<open>new_block\<close> and \<open>block\<close> are the same address.
\<close>

definition split_block :: "allocator \<Rightarrow> int \<Rightarrow> int \<Rightarrow> allocator" where
  "split_block s block requested_size =
     (let aligned_size = align_size requested_size;
          total_size = wrap (sizeof_BlockHeader + aligned_size);
          min_remaining = get_min_block_size;
          h = heap_buffer s
      in if bsize (h block) < wrap (total_size + min_remaining) then s
         else
           let new_block = block + total_size;
               h1 = h(new_block := (h new_block)\<lparr>bsize := wrap (bsize (h block) - total_size)\<rparr>);
               h2 = h1(new_block := (h1 new_block)\<lparr>is_free := True\<rparr>);
               h3 = h2(block := (h2 block)\<lparr>bsize := total_size\<rparr>);
               h4 = h3(new_block := (h3 new_block)\<lparr>bnext := bnext (h3 block)\<rparr>);
               h5 = h4(block := (h4 block)\<lparr>bnext := Some new_block\<rparr>)
           in s\<lparr>heap_buffer := h5\<rparr>)"

text \<open>Whether \<open>split_block\<close> takes its splitting branch.\<close>

definition splits :: "allocator \<Rightarrow> int \<Rightarrow> int \<Rightarrow> bool" where
  "splits s block requested_size =
     (\<not> bsize (heap_buffer s block)
          < wrap (wrap (sizeof_BlockHeader + align_size requested_size) + get_min_block_size))"

subsection \<open>Allocation\<close>

text \<open>Lines 170 to 186 of \<open>my_malloc\<close>: what happens to the first block that fits.\<close>

definition take_block :: "allocator \<Rightarrow> int \<Rightarrow> int \<Rightarrow> int option \<Rightarrow> int option \<times> allocator" where
  "take_block s sz current prev =
     (let s1 = split_block s current sz;
          block_to_use = current;
          s2 = (if Some block_to_use = free_list s1
                then s1\<lparr>free_list := bnext (heap_buffer s1 block_to_use)\<rparr>
                else (case prev of
                        Some p \<Rightarrow>
                          s1\<lparr>heap_buffer := (heap_buffer s1)
                               (p := (heap_buffer s1 p)\<lparr>bnext := bnext (heap_buffer s1 block_to_use)\<rparr>)\<rparr>
                      | None \<Rightarrow> s1));
          h = heap_buffer s2;
          h' = h(block_to_use := (h block_to_use)\<lparr>is_free := False\<rparr>);
          h'' = h'(block_to_use := (h' block_to_use)\<lparr>bnext := None\<rparr>)
      in (Some (get_data block_to_use), s2\<lparr>heap_buffer := h''\<rparr>))"

text \<open>
  The search loop of \<open>my_malloc\<close>. It follows the links of the free list and need not
  end on a list with a cycle, so it is a partial function: \<open>None\<close> is "does not return".
\<close>

partial_function (option) malloc_search ::
  "allocator \<Rightarrow> int \<Rightarrow> int \<Rightarrow> int option \<Rightarrow> int option \<Rightarrow> (int option \<times> allocator) option" where
  "malloc_search s sz total_size current prev =
     (case current of
        None \<Rightarrow> Some (None, s)
      | Some c \<Rightarrow>
          if bsize (heap_buffer s c) \<ge> total_size then Some (take_block s sz c prev)
          else malloc_search s sz total_size (bnext (heap_buffer s c)) (Some c))"

definition my_malloc :: "allocator \<Rightarrow> int \<Rightarrow> (int option \<times> allocator) option" where
  "my_malloc s sz =
     (if sz = 0 then Some (None, s)
      else
        let aligned_size = align_size sz;
            total_size = wrap (sizeof_BlockHeader + aligned_size)
        in malloc_search s sz total_size (free_list s) None)"

subsection \<open>Removal from the free list\<close>

text \<open>The loop of \<open>remove_from_free_list\<close>: the node whose link is \<open>block\<close>, if any.\<close>

partial_function (option) find_link :: "(int \<Rightarrow> BlockHeader) \<Rightarrow> int \<Rightarrow> int option \<Rightarrow> int option option" where
  "find_link h block current =
     (case current of
        None \<Rightarrow> Some None
      | Some c \<Rightarrow>
          if bnext (h c) \<noteq> Some block then find_link h block (bnext (h c))
          else Some (Some c))"

definition remove_from_free_list :: "allocator \<Rightarrow> int \<Rightarrow> allocator option" where
  "remove_from_free_list s block =
     (if free_list s = None then Some s
      else if free_list s = Some block then Some (s\<lparr>free_list := bnext (heap_buffer s block)\<rparr>)
      else
        (case find_link (heap_buffer s) block (free_list s) of
           None \<Rightarrow> None
         | Some None \<Rightarrow> Some s
         | Some (Some c) \<Rightarrow>
             Some (s\<lparr>heap_buffer := (heap_buffer s)
                       (c := (heap_buffer s c)\<lparr>bnext := bnext (heap_buffer s block)\<rparr>)\<rparr>)))"

subsection \<open>Coalescing\<close>

text \<open>
  The backward scan of \<open>coalesce_block\<close>: from \<open>prev_block_end\<close>, block by block, to the
  free block that ends at \<open>block_start\<close>, if there is one. A block of size 0 on the way
  keeps it from returning.
\<close>

partial_function (option) find_prev_block :: "(int \<Rightarrow> BlockHeader) \<Rightarrow> int \<Rightarrow> int \<Rightarrow> int option option" where
  "find_prev_block h block_start prev_block_end =
     (if prev_block_end < block_start then
        (let current = prev_block_end;
             current_end = prev_block_end + bsize (h current)
         in if current_end = block_start \<and> is_free (h current) then Some (Some current)
            else if current_end \<ge> block_start then Some None
            else find_prev_block h block_start current_end)
      else Some None)"

text \<open>The forward merge, lines 107 to 116.\<close>

definition merge_next :: "allocator \<Rightarrow> int \<Rightarrow> allocator option" where
  "merge_next s block =
     (let block_end = block + bsize (heap_buffer s block)
      in if block_end < HEAP_SIZE then
           (let next_block = block_end
            in if is_free (heap_buffer s next_block) then
                 (case remove_from_free_list s next_block of
                    None \<Rightarrow> None
                  | Some s1 \<Rightarrow>
                      let h = heap_buffer s1
                      in Some (s1\<lparr>heap_buffer :=
                                 h(block := (h block)\<lparr>bsize := wrap (bsize (h block) + bsize (h next_block))\<rparr>)\<rparr>))
               else Some s)
         else Some s)"

text \<open>
  \<open>coalesce_block\<close> returns the block to insert into the free list, or \<open>nullptr\<close> when
  the block went into its predecessor.
\<close>

definition coalesce_block :: "allocator \<Rightarrow> int \<Rightarrow> (int option \<times> allocator) option" where
  "coalesce_block s block =
     (case merge_next s block of
        None \<Rightarrow> None
      | Some s1 \<Rightarrow>
          (case find_prev_block (heap_buffer s1) block 0 of
             None \<Rightarrow> None
           | Some (Some prev_block) \<Rightarrow>
               let h = heap_buffer s1
               in Some (None,
                    s1\<lparr>heap_buffer :=
                        h(prev_block := (h prev_block)\<lparr>bsize := wrap (bsize (h prev_block) + bsize (h block))\<rparr>)\<rparr>)
           | Some None \<Rightarrow> Some (Some block, s1)))"

subsection \<open>Release\<close>

text \<open>What \<open>my_free\<close> did: nothing for \<open>nullptr\<close>, one of its two messages, or the release.\<close>

datatype free_report = Null_Ignored | Invalid_Pointer | Double_Free | Released

definition my_free :: "allocator \<Rightarrow> int option \<Rightarrow> (free_report \<times> allocator) option" where
  "my_free s ptr =
     (case ptr of
        None \<Rightarrow> Some (Null_Ignored, s)
      | Some p \<Rightarrow>
          let block = get_header p
          in if \<not> is_valid_ptr block then Some (Invalid_Pointer, s)
             else if is_free (heap_buffer s block) then Some (Double_Free, s)
             else
               let h = heap_buffer s;
                   h1 = h(block := (h block)\<lparr>is_free := True\<rparr>);
                   h2 = h1(block := (h1 block)\<lparr>bnext := None\<rparr>)
               in (case coalesce_block (s\<lparr>heap_buffer := h2\<rparr>) block of
                     None \<Rightarrow> None
                   | Some (None, s1) \<Rightarrow> Some (Released, s1)
                   | Some (Some block_to_insert, s1) \<Rightarrow>
                       let g = heap_buffer s1;
                           g1 = g(block_to_insert := (g block_to_insert)\<lparr>bnext := free_list s1\<rparr>)
                       in Some (Released, s1\<lparr>heap_buffer := g1, free_list := Some block_to_insert\<rparr>)))"

subsection \<open>Diagnostics\<close>

text \<open>The walks of \<open>get_used_memory\<close>, \<open>get_free_memory\<close> and \<open>get_fragmentation_count\<close>.\<close>

partial_function (option) used_walk :: "(int \<Rightarrow> BlockHeader) \<Rightarrow> int \<Rightarrow> int \<Rightarrow> int option" where
  "used_walk h used current =
     (if current < HEAP_SIZE then
        used_walk h
          (if \<not> is_free (h current) then wrap (used + wrap (bsize (h current) - sizeof_BlockHeader)) else used)
          (current + bsize (h current))
      else Some used)"

definition get_used_memory :: "allocator \<Rightarrow> int option" where
  "get_used_memory s = used_walk (heap_buffer s) 0 0"

partial_function (option) free_walk :: "(int \<Rightarrow> BlockHeader) \<Rightarrow> int \<Rightarrow> int option \<Rightarrow> int option" where
  "free_walk h free current =
     (case current of
        None \<Rightarrow> Some free
      | Some c \<Rightarrow> free_walk h (wrap (free + wrap (bsize (h c) - sizeof_BlockHeader))) (bnext (h c)))"

definition get_free_memory :: "allocator \<Rightarrow> int option" where
  "get_free_memory s = free_walk (heap_buffer s) 0 (free_list s)"

partial_function (option) count_walk :: "(int \<Rightarrow> BlockHeader) \<Rightarrow> int \<Rightarrow> int option \<Rightarrow> int option" where
  "count_walk h count current =
     (case current of
        None \<Rightarrow> Some count
      | Some c \<Rightarrow> count_walk h (wrap (count + 1)) (bnext (h c)))"

definition get_fragmentation_count :: "allocator \<Rightarrow> int option" where
  "get_fragmentation_count s = count_walk (heap_buffer s) 0 (free_list s)"

text \<open>
  The layout loop of \<open>print_heap_state\<close> (lines 295 to 313), the one walk of the source
  with a guard: it prints a row per block and stops with an error message at a block of
  size 0 or after more than 10000 rows. The counter never gets near \<open>2^64\<close>, so it is a
  plain integer. The result is the rows printed (address, size, user size, free flag) and
  whether the error message was printed.
\<close>

function layout_walk ::
  "(int \<Rightarrow> BlockHeader) \<Rightarrow> int \<Rightarrow> int \<Rightarrow> (int \<times> int \<times> int \<times> bool) list \<times> bool" where
  "layout_walk h current block_num =
     (if current < HEAP_SIZE then
        (let user_size = wrap (bsize (h current) - sizeof_BlockHeader);
             row = (current, bsize (h current), user_size, is_free (h current))
         in if bsize (h current) = 0 \<or> block_num + 1 > 10000 then ([row], True)
            else (case layout_walk h (current + bsize (h current)) (block_num + 1) of
                    (rows, err) \<Rightarrow> (row # rows, err)))
      else ([], False))"
  by pat_completeness auto
termination
  by (relation "measure (\<lambda>(h, current, block_num). nat (10001 - block_num))") auto

text \<open>The free-list loop of \<open>print_heap_state\<close> (lines 316 to 324), which has no guard.\<close>

partial_function (option) free_list_rows :: "(int \<Rightarrow> BlockHeader) \<Rightarrow> int option \<Rightarrow> (int \<times> int) list option" where
  "free_list_rows h free_block =
     (case free_block of
        None \<Rightarrow> Some []
      | Some c \<Rightarrow>
          Option.bind (free_list_rows h (bnext (h c)))
            (\<lambda>rows. Some ((c, bsize (h c)) # rows)))"

text \<open>
  \<open>print_heap_state\<close> prints the three counters first (lines 280 to 282), then the
  layout, then the free list; the model returns what it printed, if it returns.
\<close>

definition print_heap_state ::
  "allocator \<Rightarrow> (int \<times> int \<times> int \<times> ((int \<times> int \<times> int \<times> bool) list \<times> bool) \<times> (int \<times> int) list) option" where
  "print_heap_state s =
     (case get_used_memory s of
        None \<Rightarrow> None
      | Some used \<Rightarrow>
          (case get_free_memory s of
             None \<Rightarrow> None
           | Some free \<Rightarrow>
               (case get_fragmentation_count s of
                  None \<Rightarrow> None
                | Some count \<Rightarrow>
                    (case free_list_rows (heap_buffer s) (free_list s) of
                       None \<Rightarrow> None
                     | Some rows \<Rightarrow>
                         Some (used, free, count, layout_walk (heap_buffer s) 0 0, rows)))))"

section \<open>Well-formed heaps and sequences of calls\<close>

text \<open>
  \<open>blocks_seg h a bs e\<close>: walking from address \<open>a\<close> by the size fields visits exactly the
  block addresses \<open>bs\<close>, each of positive size, and arrives at \<open>e\<close>.
  \<open>link_path h p xs q\<close>: following the links from pointer \<open>p\<close> visits exactly the blocks
  \<open>xs\<close> and arrives at pointer \<open>q\<close>.
\<close>

fun blocks_seg :: "(int \<Rightarrow> BlockHeader) \<Rightarrow> int \<Rightarrow> int list \<Rightarrow> int \<Rightarrow> bool" where
  "blocks_seg h a [] e = (a = e)"
| "blocks_seg h a (b # bs) e = (b = a \<and> 0 < bsize (h b) \<and> blocks_seg h (a + bsize (h b)) bs e)"

fun link_path :: "(int \<Rightarrow> BlockHeader) \<Rightarrow> int option \<Rightarrow> int list \<Rightarrow> int option \<Rightarrow> bool" where
  "link_path h p [] q = (p = q)"
| "link_path h p (x # xs) q = (p = Some x \<and> link_path h (bnext (h x)) xs q)"

fun no_adjacent_free :: "(int \<Rightarrow> BlockHeader) \<Rightarrow> int list \<Rightarrow> bool" where
  "no_adjacent_free h (a # b # bs) = (\<not> (is_free (h a) \<and> is_free (h b)) \<and> no_adjacent_free h (b # bs))"
| "no_adjacent_free h [a] = True"
| "no_adjacent_free h [] = True"

text \<open>
  A heap is well formed, with blocks \<open>bs\<close> in address order and free list \<open>fl\<close> in list
  order, when the blocks tile the region, the free list ends in \<open>nullptr\<close> and holds
  exactly the blocks whose flag is set, every size is a multiple of the alignment unit
  and at least a header plus one unit, and no two neighbours are both free.
\<close>

definition well_formed :: "allocator \<Rightarrow> int list \<Rightarrow> int list \<Rightarrow> bool" where
  "well_formed s bs fl =
     (blocks_seg (heap_buffer s) 0 bs HEAP_SIZE \<and>
      link_path (heap_buffer s) (free_list s) fl None \<and>
      set fl = {b \<in> set bs. is_free (heap_buffer s b)} \<and>
      (\<forall>b \<in> set bs. bsize (heap_buffer s b) mod ALIGN_SIZE = 0
                    \<and> sizeof_BlockHeader + ALIGN_SIZE \<le> bsize (heap_buffer s b)) \<and>
      no_adjacent_free (heap_buffer s) bs)"

text \<open>
  The bytes of the block behind a pointer that are the caller's: \<open>size - sizeof(BlockHeader)\<close>,
  the number \<open>get_used_memory\<close> adds up and \<open>print_heap_state\<close> prints as user size.
\<close>

definition usable :: "allocator \<Rightarrow> int \<Rightarrow> int" where
  "usable s ptr = bsize (heap_buffer s (get_header ptr)) - sizeof_BlockHeader"

text \<open>
  \<open>reach s live\<close>: the allocator is in state \<open>s\<close> after \<open>init_allocator\<close> and a sequence of
  calls, and \<open>live\<close> maps every pointer handed out and not yet released to the size that
  was requested for it. The calls are: \<open>my_malloc\<close> with a request of at most \<open>2^64 - 32\<close>
  (larger requests wrap around in \<open>align_size\<close> or in the addition of the header size);
  \<open>my_free\<close> of a live pointer; and any \<open>my_free\<close> that is ignored or refused
  (\<open>nullptr\<close>, a pointer outside the region, a block whose flag says free).
\<close>

inductive reach :: "allocator \<Rightarrow> (int \<rightharpoonup> int) \<Rightarrow> bool" where
  init: "reach init_allocator Map.empty"
| allocate: "reach s live \<Longrightarrow> 0 \<le> n \<Longrightarrow> n \<le> 2 ^ 64 - 32 \<Longrightarrow> my_malloc s n = Some (r, s') \<Longrightarrow>
     reach s' (case r of None \<Rightarrow> live | Some p \<Rightarrow> live(p \<mapsto> n))"
| release: "reach s live \<Longrightarrow> live p = Some n \<Longrightarrow> my_free s (Some p) = Some (rep, s') \<Longrightarrow>
     reach s' (live(p := None))"
| release_ignored: "reach s live \<Longrightarrow> my_free s q = Some (rep, s') \<Longrightarrow> rep \<noteq> Released \<Longrightarrow>
     reach s' live"

text \<open>The live pointers are the blocks in use, each large enough for its request.\<close>

definition live_blocks :: "allocator \<Rightarrow> int list \<Rightarrow> (int \<rightharpoonup> int) \<Rightarrow> bool" where
  "live_blocks s bs live =
     ((\<forall>p. (p \<in> dom live) = (get_header p \<in> set bs \<and> \<not> is_free (heap_buffer s (get_header p)))) \<and>
      (\<forall>p n. live p = Some n \<longrightarrow>
         1 \<le> n \<and> n \<le> 2 ^ 64 - 32 \<and>
         sizeof_BlockHeader + align_size n \<le> bsize (heap_buffer s (get_header p))))"

text \<open>
  The neighbours of a block \<open>b\<close> that is being released, in a list of blocks
  \<open>xs @ b # ys\<close>: whether the block before and the block after are free, where the
  merged block starts, how large it is, and the list of blocks after the merge.
\<close>

definition free_before :: "allocator \<Rightarrow> int list \<Rightarrow> bool" where
  "free_before s xs = (xs \<noteq> [] \<and> is_free (heap_buffer s (last xs)))"

definition free_after :: "allocator \<Rightarrow> int list \<Rightarrow> bool" where
  "free_after s ys = (ys \<noteq> [] \<and> is_free (heap_buffer s (hd ys)))"

definition merged_start :: "allocator \<Rightarrow> int list \<Rightarrow> int \<Rightarrow> int" where
  "merged_start s xs b = (if free_before s xs then last xs else b)"

definition merged_size :: "allocator \<Rightarrow> int list \<Rightarrow> int \<Rightarrow> int list \<Rightarrow> int" where
  "merged_size s xs b ys =
     (if free_before s xs then bsize (heap_buffer s (last xs)) else 0)
     + bsize (heap_buffer s b)
     + (if free_after s ys then bsize (heap_buffer s (hd ys)) else 0)"

definition merged_blocks :: "allocator \<Rightarrow> int list \<Rightarrow> int \<Rightarrow> int list \<Rightarrow> int list" where
  "merged_blocks s xs b ys =
     (if free_before s xs then butlast xs else xs) @ merged_start s xs b
       # (if free_after s ys then tl ys else ys)"

text \<open>The bytes of a block after its header.\<close>

definition payload :: "(int \<Rightarrow> BlockHeader) \<Rightarrow> int \<Rightarrow> int" where
  "payload h b = bsize (h b) - sizeof_BlockHeader"

section \<open>Properties\<close>

subsection \<open>Blocks in address order\<close>

lemma blocks_seg_append:
  "blocks_seg h a (xs @ ys) e = (\<exists>m. blocks_seg h a xs m \<and> blocks_seg h m ys e)"
  by (induction xs arbitrary: a) auto

lemma blocks_seg_le: "blocks_seg h a bs e \<Longrightarrow> a \<le> e"
  by (induction bs arbitrary: a) fastforce+

lemma blocks_seg_lt: "blocks_seg h a (b # bs) e \<Longrightarrow> a < e"
  using blocks_seg_le[of h "a + bsize (h b)" bs e] by auto

lemma blocks_seg_bounds:
  "blocks_seg h a bs e \<Longrightarrow> b \<in> set bs \<Longrightarrow> a \<le> b \<and> 0 < bsize (h b) \<and> b + bsize (h b) \<le> e"
proof (induction bs arbitrary: a)
  case Nil
  then show ?case by simp
next
  case (Cons x bs)
  show ?case
  proof (cases "b = x")
    case True
    with Cons.prems blocks_seg_le[of h "a + bsize (h x)" bs e] show ?thesis by auto
  next
    case False
    with Cons.prems have "b \<in> set bs" "blocks_seg h (a + bsize (h x)) bs e" "0 < bsize (h x)"
      by auto
    with Cons.IH[of "a + bsize (h x)"] show ?thesis by auto
  qed
qed

lemma blocks_seg_cong:
  "(\<And>b. b \<in> set bs \<Longrightarrow> bsize (h' b) = bsize (h b)) \<Longrightarrow> blocks_seg h' a bs e = blocks_seg h a bs e"
  by (induction bs arbitrary: a) auto

lemma blocks_seg_unique:
  "blocks_seg h a bs e \<Longrightarrow> blocks_seg h a bs' e \<Longrightarrow> bs = bs'"
proof (induction bs arbitrary: a bs')
  case Nil
  then show ?case using blocks_seg_lt[of h a _ _ e] by (cases bs') auto
next
  case (Cons x bs)
  then show ?case using blocks_seg_lt[of h a x bs e] by (cases bs') auto
qed

lemma blocks_seg_mid:
  "blocks_seg h a (xs @ b # ys) e \<longleftrightarrow>
     blocks_seg h a xs b \<and> 0 < bsize (h b) \<and> blocks_seg h (b + bsize (h b)) ys e"
  by (auto simp: blocks_seg_append)

lemma blocks_seg_before:
  "blocks_seg h a (xs @ b # ys) e \<Longrightarrow> x \<in> set xs \<Longrightarrow> x + bsize (h x) \<le> b"
  using blocks_seg_bounds[of h a xs b x] by (simp add: blocks_seg_mid)

lemma blocks_seg_after:
  "blocks_seg h a (xs @ b # ys) e \<Longrightarrow> y \<in> set ys \<Longrightarrow> b + bsize (h b) \<le> y"
  using blocks_seg_bounds[of h "b + bsize (h b)" ys e y] by (simp add: blocks_seg_mid)

lemma blocks_seg_distinct: "blocks_seg h a bs e \<Longrightarrow> distinct bs"
proof (induction bs arbitrary: a)
  case Nil
  then show ?case by simp
next
  case (Cons x bs)
  then have "x \<notin> set bs"
    using blocks_seg_bounds[of h "a + bsize (h x)" bs e x] by auto
  with Cons show ?case by auto
qed

subsection \<open>Linked lists in the heap\<close>

lemma link_path_append:
  "link_path h p (xs @ ys) q = (\<exists>m. link_path h p xs m \<and> link_path h m ys q)"
  by (induction xs arbitrary: p) auto

lemma link_path_cong:
  "(\<And>x. x \<in> set xs \<Longrightarrow> bnext (h' x) = bnext (h x)) \<Longrightarrow> link_path h' p xs q = link_path h p xs q"
  by (induction xs arbitrary: p) auto

lemma link_path_unique:
  "link_path h p xs None \<Longrightarrow> link_path h p ys None \<Longrightarrow> xs = ys"
proof (induction xs arbitrary: p ys)
  case Nil
  then show ?case by (cases ys) auto
next
  case (Cons x xs)
  then show ?case by (cases ys) auto
qed

lemma link_path_notin:
  assumes "link_path h (bnext (h x)) xs None"
  shows "x \<notin> set xs"
proof
  assume "x \<in> set xs"
  then obtain as bs where xs: "xs = as @ x # bs" by (auto dest: split_list)
  with assms have "link_path h (bnext (h x)) bs None"
    by (auto simp: link_path_append)
  with assms have "xs = bs" by (rule link_path_unique)
  with xs show False by simp
qed

lemma link_path_distinct: "link_path h p xs None \<Longrightarrow> distinct xs"
  by (induction xs arbitrary: p) (auto dest: link_path_notin)

lemma link_path_mid:
  "link_path h p (xs @ c # ys) q \<longleftrightarrow> link_path h p xs (Some c) \<and> link_path h (bnext (h c)) ys q"
  by (auto simp: link_path_append)

subsection \<open>Free neighbours\<close>

lemma no_adjacent_free_cong:
  "(\<And>x. x \<in> set xs \<Longrightarrow> is_free (h' x) = is_free (h x)) \<Longrightarrow>
   no_adjacent_free h' xs = no_adjacent_free h xs"
  by (induction h xs rule: no_adjacent_free.induct) auto

lemma no_adjacent_free_append:
  "no_adjacent_free h (xs @ y # ys) = (no_adjacent_free h (xs @ [y]) \<and> no_adjacent_free h (y # ys))"
  by (induction h xs rule: no_adjacent_free.induct) auto

lemma no_adjacent_free_snoc:
  "no_adjacent_free h (xs @ [y]) =
     (no_adjacent_free h xs \<and> (xs \<noteq> [] \<longrightarrow> \<not> (is_free (h (last xs)) \<and> is_free (h y))))"
  by (induction h xs rule: no_adjacent_free.induct) auto

lemma no_adjacent_free_Cons:
  "no_adjacent_free h (y # ys) =
     (no_adjacent_free h ys \<and> (ys \<noteq> [] \<longrightarrow> \<not> (is_free (h y) \<and> is_free (h (hd ys)))))"
  by (cases ys) auto

subsection \<open>The loops, on a list and on a chain of blocks\<close>

text \<open>
  Each loop of the source returns on the structure it is meant for: the search and the
  scan for a link on a list that ends, the backward scan on a chain of blocks that ends
  at the block released.
\<close>

lemma malloc_search_none:
  "link_path (heap_buffer s) cur xs None \<Longrightarrow>
   (\<And>x. x \<in> set xs \<Longrightarrow> bsize (heap_buffer s x) < tot) \<Longrightarrow>
   malloc_search s sz tot cur prev = Some (None, s)"
proof (induction xs arbitrary: cur prev)
  case Nil
  then show ?case by (subst malloc_search.simps) simp
next
  case (Cons x xs)
  from Cons.prems have c: "cur = Some x" and p: "link_path (heap_buffer s) (bnext (heap_buffer s x)) xs None"
    and lt: "bsize (heap_buffer s x) < tot" by auto
  have "malloc_search s sz tot (bnext (heap_buffer s x)) (Some x) = Some (None, s)"
    using Cons.IH[OF p] Cons.prems(2) by simp
  then show ?case using c lt by (subst malloc_search.simps) simp
qed

lemma malloc_search_fit:
  "link_path (heap_buffer s) cur (xs @ c # ys) q \<Longrightarrow>
   (\<And>x. x \<in> set xs \<Longrightarrow> bsize (heap_buffer s x) < tot) \<Longrightarrow>
   tot \<le> bsize (heap_buffer s c) \<Longrightarrow>
   malloc_search s sz tot cur prev =
     Some (take_block s sz c (if xs = [] then prev else Some (last xs)))"
proof (induction xs arbitrary: cur prev)
  case Nil
  then show ?case by (subst malloc_search.simps) simp
next
  case (Cons x xs)
  from Cons.prems have c: "cur = Some x"
    and p: "link_path (heap_buffer s) (bnext (heap_buffer s x)) (xs @ c # ys) q"
    and lt: "bsize (heap_buffer s x) < tot" by auto
  have "malloc_search s sz tot (bnext (heap_buffer s x)) (Some x) =
        Some (take_block s sz c (if xs = [] then Some x else Some (last xs)))"
    using Cons.IH[OF p _ Cons.prems(3)] Cons.prems(2) by simp
  then show ?case using c lt by (subst malloc_search.simps) simp
qed

lemma find_link_found:
  "link_path h cur (xs @ [pv]) (Some block) \<Longrightarrow> block \<notin> set xs \<Longrightarrow> block \<noteq> pv \<Longrightarrow>
   find_link h block cur = Some (Some pv)"
proof (induction xs arbitrary: cur)
  case Nil
  then show ?case by (subst find_link.simps) simp
next
  case (Cons x xs)
  from Cons.prems have c: "cur = Some x"
    and p: "link_path h (bnext (h x)) (xs @ [pv]) (Some block)" by auto
  from p have "bnext (h x) = Some (hd (xs @ [pv]))" by (cases xs) auto
  moreover have "hd (xs @ [pv]) \<noteq> block" using Cons.prems(2,3) by (cases xs) auto
  ultimately have ne: "bnext (h x) \<noteq> Some block" by simp
  have "find_link h block (bnext (h x)) = Some (Some pv)"
    using Cons.IH[OF p] Cons.prems by simp
  then show ?case using c ne by (subst find_link.simps) simp
qed

lemma find_prev_block_seg:
  "blocks_seg h a xs b \<Longrightarrow>
   find_prev_block h b a = Some (if xs \<noteq> [] \<and> is_free (h (last xs)) then Some (last xs) else None)"
proof (induction xs arbitrary: a)
  case Nil
  then show ?case by (subst find_prev_block.simps) simp
next
  case (Cons x xs)
  from Cons.prems have a: "x = a" and pos: "0 < bsize (h a)"
    and seg: "blocks_seg h (a + bsize (h a)) xs b" by auto
  have lt: "a < b" using Cons.prems by (rule blocks_seg_lt)
  show ?case
  proof (cases xs)
    case Nil
    with seg have "a + bsize (h a) = b" by simp
    then show ?thesis using lt a Nil by (subst find_prev_block.simps) (simp add: Let_def)
  next
    case (Cons y ys)
    with seg have "a + bsize (h a) < b" using blocks_seg_lt by blast
    moreover have "find_prev_block h b (a + bsize (h a)) =
        Some (if is_free (h (last xs)) then Some (last xs) else None)"
      using Cons.IH[OF seg] Cons by simp
    ultimately show ?thesis using lt a Cons by (subst find_prev_block.simps) (simp add: Let_def)
  qed
qed

subsection \<open>Alignment arithmetic\<close>

lemma and_not_seven:
  assumes "0 \<le> x" "x < 2^64"
  shows "(x::int) AND 18446744073709551608 = x - x mod 8"
proof -
  have k: "(18446744073709551608::int) = push_bit 3 (mask 61)"
    by (simp add: mask_eq_exp_minus_1 push_bit_eq_mult)
  have tx: "take_bit 64 x = x" using assms by (simp add: take_bit_int_eq_self)
  have r: "x - x mod 8 = push_bit 3 (drop_bit 3 x)"
    using bits_ident[of 3 x] by (simp add: take_bit_eq_mod)
  have "x AND push_bit 3 (mask 61) = push_bit 3 (drop_bit 3 x)"
  proof (rule bit_eqI)
    fix n
    have "bit x n \<Longrightarrow> n < 64"
      using tx by (metis bit_take_bit_iff)
    then show "bit (x AND push_bit 3 (mask 61)) n = bit (push_bit 3 (drop_bit 3 x)) n"
      by (auto simp add: bit_and_iff bit_push_bit_iff bit_mask_iff bit_drop_bit_eq)
  qed
  then show ?thesis using k r by simp
qed

lemma wrap_id: "0 \<le> x \<Longrightarrow> x < 2^64 \<Longrightarrow> wrap x = x" by (simp add: wrap_def)

lemma align_size_eq:
  assumes "0 \<le> n" "n \<le> 2^64 - 8"
  shows "align_size n = (n + 7) - (n + 7) mod 8"
proof -
  have "wrap (wrap (n + 8) - 1) = n + 7"
  proof -
    have "wrap (wrap (n + 8) - 1) = wrap (n + 8 - 1)"
      unfolding wrap_def by (rule mod_diff_left_eq)
    also have "\<dots> = n + 7" using assms by (simp add: wrap_def)
    finally show ?thesis .
  qed
  moreover have "wrap (NOT (wrap (8 - 1))) = 18446744073709551608"
    by (simp add: wrap_def)
  ultimately show ?thesis using assms and_not_seven[of "n+7"]
    by (simp add: align_size_def ALIGN_SIZE_def)
qed

lemma align_size_bounds:
  assumes "0 \<le> n" "n \<le> 2^64 - 8"
  shows "n \<le> align_size n" "align_size n < n + 8" "align_size n mod 8 = 0"
proof -
  have e: "align_size n = (n + 7) - (n + 7) mod 8" using assms by (rule align_size_eq)
  have "0 \<le> (n + 7) mod 8" "(n + 7) mod 8 < 8" by simp_all
  then show "n \<le> align_size n" "align_size n < n + 8" using e by linarith+
  show "align_size n mod 8 = 0" unfolding e by presburger
qed

lemma get_min_block_size_eq: "get_min_block_size = 32"
  by (simp add: get_min_block_size_def align_size_def wrap_def ALIGN_SIZE_def sizeof_BlockHeader_def)

text \<open>The total size my_malloc and split_block compute, for a request without wrap-around.\<close>

lemma total_size_eq:
  assumes "1 \<le> n" "n \<le> 2^64 - 32"
  shows "wrap (sizeof_BlockHeader + align_size n) = 24 + align_size n"
    and "32 \<le> 24 + align_size n" and "(24 + align_size n) mod 8 = 0"
proof -
  have b: "n \<le> align_size n" "align_size n < n + 8" "align_size n mod 8 = 0"
    using assms align_size_bounds[of n] by simp_all
  have "align_size n \<le> 2^64 - 32"
  proof -
    have "(2^64 - 32 :: int) mod 8 = 0" by simp
    then show ?thesis using b assms by presburger
  qed
  then show "wrap (sizeof_BlockHeader + align_size n) = 24 + align_size n"
    using b assms by (simp add: sizeof_BlockHeader_def wrap_def)
  have "8 \<le> align_size n" using b assms by presburger
  then show "32 \<le> 24 + align_size n" by simp
  show "(24 + align_size n) mod 8 = 0" using b by presburger
qed

subsection \<open>What the allocation writes\<close>

lemma split_cond:
  assumes "1 \<le> n" "n \<le> 2^64 - 32" "bsize (heap_buffer s c) \<le> HEAP_SIZE"
    "24 + align_size n \<le> bsize (heap_buffer s c)"
  shows "splits s c n \<longleftrightarrow> 24 + align_size n + 32 \<le> bsize (heap_buffer s c)"
proof -
  have "wrap (24 + align_size n + 32) = 24 + align_size n + 32"
    using assms total_size_eq(2)[of n] by (simp add: wrap_def HEAP_SIZE_def)
  then show ?thesis
    using assms total_size_eq(1)[of n] by (auto simp: splits_def get_min_block_size_eq)
qed

lemma take_block_fst: "fst (take_block s n c prev) = Some (c + 24)"
  by (simp add: take_block_def Let_def get_data_def sizeof_BlockHeader_def)

lemma take_block_split_head:
  assumes sp: "splits s c n" and tot: "tot = wrap (sizeof_BlockHeader + align_size n)"
    and ne: "tot \<noteq> 0" and hd: "free_list s = Some c"
    and s': "s' = snd (take_block s n c prev)"
  shows "bsize (heap_buffer s' a) =
           (if a = c then tot else if a = c + tot then wrap (bsize (heap_buffer s c) - tot)
            else bsize (heap_buffer s a))"
    and "is_free (heap_buffer s' a) =
           (if a = c then False else if a = c + tot then True else is_free (heap_buffer s a))"
    and "bnext (heap_buffer s' a) =
           (if a = c then None else if a = c + tot then bnext (heap_buffer s c)
            else bnext (heap_buffer s a))"
    and "free_list s' = Some (c + tot)"
  using sp ne hd unfolding s' tot splits_def
  by (simp_all add: take_block_def split_block_def Let_def)

lemma take_block_split_mid:
  assumes sp: "splits s c n" and tot: "tot = wrap (sizeof_BlockHeader + align_size n)"
    and ne: "tot \<noteq> 0" and hd: "free_list s \<noteq> Some c" and p: "p \<noteq> c" "p \<noteq> c + tot"
    and s': "s' = snd (take_block s n c (Some p))"
  shows "bsize (heap_buffer s' a) =
           (if a = c then tot else if a = c + tot then wrap (bsize (heap_buffer s c) - tot)
            else bsize (heap_buffer s a))"
    and "is_free (heap_buffer s' a) =
           (if a = c then False else if a = c + tot then True else is_free (heap_buffer s a))"
    and "bnext (heap_buffer s' a) =
           (if a = c then None else if a = c + tot then bnext (heap_buffer s c)
            else if a = p then Some (c + tot) else bnext (heap_buffer s a))"
    and "free_list s' = free_list s"
  using sp ne hd p unfolding s' tot splits_def
  by (simp_all add: take_block_def split_block_def Let_def)

lemma take_block_whole_head:
  assumes sp: "\<not> splits s c n" and hd: "free_list s = Some c"
    and s': "s' = snd (take_block s n c prev)"
  shows "bsize (heap_buffer s' a) = bsize (heap_buffer s a)"
    and "is_free (heap_buffer s' a) = (if a = c then False else is_free (heap_buffer s a))"
    and "bnext (heap_buffer s' a) = (if a = c then None else bnext (heap_buffer s a))"
    and "free_list s' = bnext (heap_buffer s c)"
  using sp hd unfolding s' splits_def
  by (simp_all add: take_block_def split_block_def Let_def)

lemma take_block_whole_mid:
  assumes sp: "\<not> splits s c n" and hd: "free_list s \<noteq> Some c" and p: "p \<noteq> c"
    and s': "s' = snd (take_block s n c (Some p))"
  shows "bsize (heap_buffer s' a) = bsize (heap_buffer s a)"
    and "is_free (heap_buffer s' a) = (if a = c then False else is_free (heap_buffer s a))"
    and "bnext (heap_buffer s' a) =
           (if a = c then None else if a = p then bnext (heap_buffer s c) else bnext (heap_buffer s a))"
    and "free_list s' = free_list s"
  using sp hd p unfolding s' splits_def
  by (simp_all add: take_block_def split_block_def Let_def)

subsection \<open>Cutting and relinking the free list\<close>

lemma link_path_redirect:
  assumes "link_path h start f1 c"
    and "\<And>x. x \<in> set (butlast f1) \<Longrightarrow> bnext (h' x) = bnext (h x)"
    and "f1 \<noteq> [] \<Longrightarrow> bnext (h' (last f1)) = t \<and> start' = start"
    and "f1 = [] \<Longrightarrow> start' = t"
  shows "link_path h' start' f1 t"
  using assms
proof (induction f1 arbitrary: start start')
  case Nil
  then show ?case by simp
next
  case (Cons x f1)
  from Cons.prems(1) have st: "start = Some x" and p: "link_path h (bnext (h x)) f1 c" by auto
  from Cons.prems(3) have st': "start' = start" by simp
  show ?case
  proof (cases "f1 = []")
    case True
    with Cons.prems(3) st st' show ?thesis by simp
  next
    case False
    have "link_path h' (bnext (h' x)) f1 t"
    proof (rule Cons.IH[OF p])
      show "\<And>y. y \<in> set (butlast f1) \<Longrightarrow> bnext (h' y) = bnext (h y)"
        using Cons.prems(2) False by simp
      show "f1 \<noteq> [] \<Longrightarrow> bnext (h' (last f1)) = t \<and> bnext (h' x) = bnext (h x)"
        using Cons.prems(2,3) False by simp
      show "f1 = [] \<Longrightarrow> bnext (h' x) = t" using False by simp
    qed
    with st st' show ?thesis by simp
  qed
qed

text \<open>The free list of a well-formed heap, cut at one of its members.\<close>

lemma free_list_cut:
  assumes p: "link_path h start (f1 @ c # f2) None"
  shows "c \<notin> set f1" "c \<notin> set f2" "set f1 \<inter> set f2 = {}" "distinct f1" "distinct f2"
    "link_path h start f1 (Some c)" "link_path h (bnext (h c)) f2 None"
    "f1 = [] \<Longrightarrow> start = Some c" "f1 \<noteq> [] \<Longrightarrow> start \<noteq> Some c"
proof -
  have d: "distinct (f1 @ c # f2)" using p by (rule link_path_distinct)
  then show "c \<notin> set f1" "c \<notin> set f2" "set f1 \<inter> set f2 = {}" "distinct f1" "distinct f2"
    by auto
  show a: "link_path h start f1 (Some c)" and "link_path h (bnext (h c)) f2 None"
    using p by (simp_all add: link_path_mid)
  show "f1 = [] \<Longrightarrow> start = Some c" using a by simp
  show "f1 \<noteq> [] \<Longrightarrow> start \<noteq> Some c"
    using a d by (cases f1) auto
qed

lemma well_formed_block_size:
  assumes "well_formed s bs fl" "b \<in> set bs"
  shows "0 \<le> b" "b < HEAP_SIZE" "32 \<le> bsize (heap_buffer s b)"
    "b + bsize (heap_buffer s b) \<le> HEAP_SIZE" "bsize (heap_buffer s b) \<le> HEAP_SIZE"
    "bsize (heap_buffer s b) mod 8 = 0"
proof -
  have seg: "blocks_seg (heap_buffer s) 0 bs HEAP_SIZE" using assms by (simp add: well_formed_def)
  from blocks_seg_bounds[OF seg assms(2)]
  show "0 \<le> b" "b + bsize (heap_buffer s b) \<le> HEAP_SIZE" by simp_all
  then show "bsize (heap_buffer s b) \<le> HEAP_SIZE" by simp
  show "32 \<le> bsize (heap_buffer s b)" "bsize (heap_buffer s b) mod 8 = 0"
    using assms by (simp_all add: well_formed_def sizeof_BlockHeader_def ALIGN_SIZE_def)
  then show "b < HEAP_SIZE" using \<open>b + bsize (heap_buffer s b) \<le> HEAP_SIZE\<close> by simp
qed

subsection \<open>Allocation keeps the heap well formed\<close>

lemma butlast_not_last: "x \<in> set (butlast xs) \<Longrightarrow> distinct xs \<Longrightarrow> x \<noteq> last xs"
proof (cases "xs = []")
  case True
  assume "x \<in> set (butlast xs)"
  with True show ?thesis by simp
next
  case False
  assume x: "x \<in> set (butlast xs)" and d: "distinct xs"
  from False have "xs = butlast xs @ [last xs]" by simp
  with d have "distinct (butlast xs @ [last xs])" by simp
  then have "last xs \<notin> set (butlast xs)" by simp
  with x show ?thesis by auto
qed

lemma take_block_split_wf:
  assumes wf: "well_formed s (xs @ c # ys) (f1 @ c # f2)"
    and n: "1 \<le> n" "n \<le> 2^64 - 32"
    and tot: "tot = 24 + align_size n"
    and big: "tot + 32 \<le> bsize (heap_buffer s c)"
    and s': "s' = snd (take_block s n c (if f1 = [] then None else Some (last f1)))"
  shows "well_formed s' (xs @ c # (c + tot) # ys) (f1 @ (c + tot) # f2)"
    and "\<And>a. bsize (heap_buffer s' a) =
           (if a = c then tot else if a = c + tot then bsize (heap_buffer s c) - tot
            else bsize (heap_buffer s a))"
    and "\<And>a. is_free (heap_buffer s' a) =
           (if a = c then False else if a = c + tot then True else is_free (heap_buffer s a))"
proof -
  define h where "h = heap_buffer s"
  define h' where "h' = heap_buffer s'"
  define nb where "nb = c + tot"
  have seg: "blocks_seg h 0 (xs @ c # ys) HEAP_SIZE"
    and path: "link_path h (free_list s) (f1 @ c # f2) None"
    and setfl: "set (f1 @ c # f2) = {b \<in> set (xs @ c # ys). is_free (h b)}"
    and naf: "no_adjacent_free h (xs @ c # ys)"
    using wf by (simp_all add: well_formed_def h_def)
  have szs: "\<And>b. b \<in> set (xs @ c # ys) \<Longrightarrow> 32 \<le> bsize (h b) \<and> bsize (h b) mod 8 = 0"
    using well_formed_block_size[OF wf] by (simp add: h_def)
  have big: "tot + 32 \<le> bsize (h c)" using big by (simp add: h_def)
  have cS: "bsize (h c) \<le> HEAP_SIZE" using well_formed_block_size(5)[OF wf, of c] by (simp add: h_def)
  have t32: "32 \<le> tot" and t8: "tot mod 8 = 0" and w: "wrap (sizeof_BlockHeader + align_size n) = tot"
    using total_size_eq[OF n] tot by simp_all
  have sp: "splits s c n"
    using split_cond[OF n, of s c] cS big tot by (simp add: h_def)
  have tne: "tot \<noteq> 0" using t32 by simp
  have wS: "wrap (bsize (h c) - tot) = bsize (h c) - tot"
    using big cS t32 by (simp add: wrap_def HEAP_SIZE_def)
  note cut = free_list_cut[OF path]
  have cfree: "is_free (h c)" using setfl by auto
  have nb_notin: "nb \<notin> set (xs @ c # ys)"
  proof
    assume "nb \<in> set (xs @ c # ys)"
    then consider "nb \<in> set xs" | "nb = c" | "nb \<in> set ys" by auto
    then show False
    proof cases
      case 1
      with blocks_seg_before[OF seg 1] blocks_seg_bounds[OF seg, of nb] show False
        using t32 by (simp add: nb_def)
    next
      case 2
      then show False using tne by (simp add: nb_def)
    next
      case 3
      with blocks_seg_after[OF seg 3] show False using big by (simp add: nb_def)
    qed
  qed
  have fl_sub: "set (f1 @ c # f2) \<subseteq> set (xs @ c # ys)" using setfl by auto
  have nb_nfl: "nb \<notin> set f1" "nb \<notin> set f2" "nb \<noteq> c" using nb_notin fl_sub by auto
  have proj: "(\<forall>a. bsize (h' a) = (if a = c then tot else if a = nb then bsize (h c) - tot else bsize (h a)))
      \<and> (\<forall>a. is_free (h' a) = (if a = c then False else if a = nb then True else is_free (h a)))
      \<and> (\<forall>a. a \<noteq> c \<longrightarrow> a \<noteq> nb \<longrightarrow> (f1 = [] \<or> a \<noteq> last f1) \<longrightarrow> bnext (h' a) = bnext (h a))
      \<and> bnext (h' nb) = bnext (h c)
      \<and> (f1 \<noteq> [] \<longrightarrow> bnext (h' (last f1)) = Some nb \<and> free_list s' = free_list s)
      \<and> (f1 = [] \<longrightarrow> free_list s' = Some nb)"
  proof (cases "f1 = []")
    case True
    note hd = take_block_split_head[OF sp w[symmetric] tne cut(8)[OF True] s'[unfolded True if_True]]
    show ?thesis using True nb_nfl wS unfolding h_def h'_def nb_def
      by (simp add: hd)
  next
    case False
    have pl: "last f1 \<in> set f1" using False by simp
    then have pc: "last f1 \<noteq> c" "last f1 \<noteq> c + tot" using cut(1) nb_nfl by (auto simp: nb_def)
    have s'': "s' = snd (take_block s n c (Some (last f1)))" using s' False by simp
    note md = take_block_split_mid[OF sp w[symmetric] tne cut(9)[OF False] pc s'']
    show ?thesis using False nb_nfl wS pc unfolding h_def h'_def nb_def
      by (simp add: md)
  qed
  have B: "bsize (h' a) = (if a = c then tot else if a = nb then bsize (h c) - tot else bsize (h a))"
    and F: "is_free (h' a) = (if a = c then False else if a = nb then True else is_free (h a))"
    and Nx: "a \<noteq> c \<Longrightarrow> a \<noteq> nb \<Longrightarrow> (f1 = [] \<or> a \<noteq> last f1) \<Longrightarrow> bnext (h' a) = bnext (h a)"
    and Nnb: "bnext (h' nb) = bnext (h c)"
    and L: "f1 \<noteq> [] \<Longrightarrow> bnext (h' (last f1)) = Some nb \<and> free_list s' = free_list s"
    and L0: "f1 = [] \<Longrightarrow> free_list s' = Some nb" for a
    using proj by blast+
  show "\<And>a. bsize (heap_buffer s' a) =
           (if a = c then tot else if a = c + tot then bsize (heap_buffer s c) - tot
            else bsize (heap_buffer s a))"
    using B by (simp add: h_def h'_def nb_def)
  show "\<And>a. is_free (heap_buffer s' a) =
           (if a = c then False else if a = c + tot then True else is_free (heap_buffer s a))"
    using F by (simp add: h_def h'_def nb_def)
  \<comment> \<open>the blocks\<close>
  have seg': "blocks_seg h' 0 (xs @ c # nb # ys) HEAP_SIZE"
  proof -
    from seg have a: "blocks_seg h 0 xs c" and b: "blocks_seg h (c + bsize (h c)) ys HEAP_SIZE"
      by (simp_all add: blocks_seg_mid)
    have "blocks_seg h' 0 xs c"
      using a nb_notin blocks_seg_distinct[OF seg]
      by (subst blocks_seg_cong[of xs h' h]) (auto simp: B)
    moreover have "blocks_seg h' (c + bsize (h c)) ys HEAP_SIZE"
      using b nb_notin blocks_seg_distinct[OF seg]
      by (subst blocks_seg_cong[of ys h' h]) (auto simp: B)
    ultimately show ?thesis
      using t32 big nb_nfl(3) by (simp add: blocks_seg_mid B nb_def)
  qed
  \<comment> \<open>the free list\<close>
  have path': "link_path h' (free_list s') (f1 @ nb # f2) None"
  proof -
    have "link_path h' (free_list s') f1 (Some nb)"
    proof (rule link_path_redirect[OF cut(6)])
      fix x assume x: "x \<in> set (butlast f1)"
      then have "x \<in> set f1" by (rule in_set_butlastD)
      moreover have "x \<noteq> last f1"
        using x cut(4) by (rule butlast_not_last)
      ultimately show "bnext (h' x) = bnext (h x)"
        using cut(1) nb_nfl by (intro Nx) auto
    next
      show "f1 \<noteq> [] \<Longrightarrow> bnext (h' (last f1)) = Some nb \<and> free_list s' = free_list s" by (rule L)
      show "f1 = [] \<Longrightarrow> free_list s' = Some nb" by (rule L0)
    qed
    moreover have "link_path h' (bnext (h c)) f2 None"
    proof -
      have "\<And>x. x \<in> set f2 \<Longrightarrow> bnext (h' x) = bnext (h x)"
      proof (rule Nx)
        fix x assume x: "x \<in> set f2"
        show "x \<noteq> c" "x \<noteq> nb" using x cut(2) nb_nfl by auto
        show "f1 = [] \<or> x \<noteq> last f1"
        proof (cases "f1 = []")
          case False
          then have "last f1 \<in> set f1" by simp
          with x cut(3) show ?thesis by auto
        qed simp
      qed
      then show ?thesis using cut(7) by (simp add: link_path_cong[of f2 h' h])
    qed
    ultimately show ?thesis by (simp add: link_path_mid Nnb)
  qed
  \<comment> \<open>who is free\<close>
  have setfl': "set (f1 @ nb # f2) = {b \<in> set (xs @ c # nb # ys). is_free (h' b)}"
    using setfl cut(1,2) nb_notin by (auto simp: F)
  have szs': "\<forall>b \<in> set (xs @ c # nb # ys). bsize (h' b) mod ALIGN_SIZE = 0
                    \<and> sizeof_BlockHeader + ALIGN_SIZE \<le> bsize (h' b)"
  proof
    fix b assume b: "b \<in> set (xs @ c # nb # ys)"
    have "bsize (h c) mod 8 = 0" using szs[of c] by simp
    then have "(bsize (h c) - tot) mod 8 = 0" using t8 by presburger
    then show "bsize (h' b) mod ALIGN_SIZE = 0 \<and> sizeof_BlockHeader + ALIGN_SIZE \<le> bsize (h' b)"
      using b szs[of b] t32 t8 big
      by (auto simp: B ALIGN_SIZE_def sizeof_BlockHeader_def)
  qed
  have naf': "no_adjacent_free h' (xs @ c # nb # ys)"
  proof -
    have 1: "no_adjacent_free h' xs = no_adjacent_free h xs"
      using nb_notin blocks_seg_distinct[OF seg] by (intro no_adjacent_free_cong) (auto simp: F)
    have 2: "no_adjacent_free h' ys = no_adjacent_free h ys"
      using nb_notin blocks_seg_distinct[OF seg] by (intro no_adjacent_free_cong) (auto simp: F)
    have 3: "ys \<noteq> [] \<Longrightarrow> \<not> is_free (h' (hd ys))"
    proof -
      assume ne: "ys \<noteq> []"
      then have "hd ys \<in> set ys" by simp
      then have "hd ys \<noteq> c" "hd ys \<noteq> nb"
        using nb_notin blocks_seg_distinct[OF seg] by auto
      moreover have "\<not> is_free (h (hd ys))"
        using naf cfree ne by (simp add: no_adjacent_free_append[of h xs c ys] no_adjacent_free_Cons[of h c ys])
      ultimately show ?thesis by (simp add: F)
    qed
    have 4: "no_adjacent_free h xs" "no_adjacent_free h ys"
      using naf by (simp_all add: no_adjacent_free_append[of h xs c ys] no_adjacent_free_Cons[of h c ys]
          no_adjacent_free_snoc)
    show ?thesis
      using 1 2 3 4
      by (simp add: no_adjacent_free_append[of h' xs c] no_adjacent_free_snoc
          no_adjacent_free_Cons[of h' c] no_adjacent_free_Cons[of h' nb] F)
  qed
  show "well_formed s' (xs @ c # (c + tot) # ys) (f1 @ (c + tot) # f2)"
    using seg' path' setfl' szs' naf' unfolding well_formed_def h'_def nb_def by simp
qed

lemma no_adjacent_free_mono:
  "(\<And>x. x \<in> set xs \<Longrightarrow> is_free (h' x) \<Longrightarrow> is_free (h x)) \<Longrightarrow>
   no_adjacent_free h xs \<Longrightarrow> no_adjacent_free h' xs"
  by (induction h xs rule: no_adjacent_free.induct) auto

lemma take_block_whole_wf:
  assumes wf: "well_formed s (xs @ c # ys) (f1 @ c # f2)"
    and n: "1 \<le> n" "n \<le> 2^64 - 32"
    and tot: "tot = 24 + align_size n"
    and fit: "tot \<le> bsize (heap_buffer s c)"
    and small: "bsize (heap_buffer s c) < tot + 32"
    and s': "s' = snd (take_block s n c (if f1 = [] then None else Some (last f1)))"
  shows "well_formed s' (xs @ c # ys) (f1 @ f2)"
    and "\<And>a. bsize (heap_buffer s' a) = bsize (heap_buffer s a)"
    and "\<And>a. is_free (heap_buffer s' a) = (if a = c then False else is_free (heap_buffer s a))"
proof -
  define h where "h = heap_buffer s"
  define h' where "h' = heap_buffer s'"
  have seg: "blocks_seg h 0 (xs @ c # ys) HEAP_SIZE"
    and path: "link_path h (free_list s) (f1 @ c # f2) None"
    and setfl: "set (f1 @ c # f2) = {b \<in> set (xs @ c # ys). is_free (h b)}"
    and naf: "no_adjacent_free h (xs @ c # ys)"
    and szs: "\<forall>b \<in> set (xs @ c # ys). bsize (h b) mod ALIGN_SIZE = 0
                    \<and> sizeof_BlockHeader + ALIGN_SIZE \<le> bsize (h b)"
    using wf by (simp_all add: well_formed_def h_def)
  have cS: "bsize (heap_buffer s c) \<le> HEAP_SIZE" using well_formed_block_size(5)[OF wf, of c] by simp
  have sp: "\<not> splits s c n"
    using split_cond[OF n, of s c] cS fit small tot by simp
  note cut = free_list_cut[OF path]
  have proj: "(\<forall>a. bsize (h' a) = bsize (h a))
      \<and> (\<forall>a. is_free (h' a) = (if a = c then False else is_free (h a)))
      \<and> (\<forall>a. a \<noteq> c \<longrightarrow> (f1 = [] \<or> a \<noteq> last f1) \<longrightarrow> bnext (h' a) = bnext (h a))
      \<and> (f1 \<noteq> [] \<longrightarrow> bnext (h' (last f1)) = bnext (h c) \<and> free_list s' = free_list s)
      \<and> (f1 = [] \<longrightarrow> free_list s' = bnext (h c))"
  proof (cases "f1 = []")
    case True
    note hd = take_block_whole_head[OF sp cut(8)[OF True] s'[unfolded True if_True]]
    show ?thesis using True unfolding h_def h'_def
      by (simp add: hd)
  next
    case False
    have pl: "last f1 \<in> set f1" using False by simp
    then have pc: "last f1 \<noteq> c" using cut(1) by auto
    have s'': "s' = snd (take_block s n c (Some (last f1)))" using s' False by simp
    note md = take_block_whole_mid[OF sp cut(9)[OF False] pc s'']
    show ?thesis using False pc unfolding h_def h'_def
      by (simp add: md)
  qed
  have B: "bsize (h' a) = bsize (h a)"
    and F: "is_free (h' a) = (if a = c then False else is_free (h a))"
    and Nx: "a \<noteq> c \<Longrightarrow> (f1 = [] \<or> a \<noteq> last f1) \<Longrightarrow> bnext (h' a) = bnext (h a)"
    and L: "f1 \<noteq> [] \<Longrightarrow> bnext (h' (last f1)) = bnext (h c) \<and> free_list s' = free_list s"
    and L0: "f1 = [] \<Longrightarrow> free_list s' = bnext (h c)" for a
    using proj by blast+
  show "\<And>a. bsize (heap_buffer s' a) = bsize (heap_buffer s a)"
    using B by (simp add: h_def h'_def)
  show "\<And>a. is_free (heap_buffer s' a) = (if a = c then False else is_free (heap_buffer s a))"
    using F by (simp add: h_def h'_def)
  have seg': "blocks_seg h' 0 (xs @ c # ys) HEAP_SIZE"
    using seg by (simp add: blocks_seg_cong[of _ h' h] B)
  have path': "link_path h' (free_list s') (f1 @ f2) None"
  proof -
    have "link_path h' (free_list s') f1 (bnext (h c))"
    proof (rule link_path_redirect[OF cut(6)])
      fix x assume x: "x \<in> set (butlast f1)"
      then have "x \<in> set f1" by (rule in_set_butlastD)
      moreover have "x \<noteq> last f1"
        using x cut(4) by (rule butlast_not_last)
      ultimately show "bnext (h' x) = bnext (h x)"
        using cut(1) by (intro Nx) auto
    next
      show "f1 \<noteq> [] \<Longrightarrow> bnext (h' (last f1)) = bnext (h c) \<and> free_list s' = free_list s" by (rule L)
      show "f1 = [] \<Longrightarrow> free_list s' = bnext (h c)" by (rule L0)
    qed
    moreover have "link_path h' (bnext (h c)) f2 None"
    proof -
      have "\<And>x. x \<in> set f2 \<Longrightarrow> bnext (h' x) = bnext (h x)"
      proof (rule Nx)
        fix x assume x: "x \<in> set f2"
        show "x \<noteq> c" using x cut(2) by auto
        show "f1 = [] \<or> x \<noteq> last f1"
        proof (cases "f1 = []")
          case False
          then have "last f1 \<in> set f1" by simp
          with x cut(3) show ?thesis by auto
        qed simp
      qed
      then show ?thesis using cut(7) by (simp add: link_path_cong[of f2 h' h])
    qed
    ultimately show ?thesis by (auto simp: link_path_append)
  qed
  have setfl': "set (f1 @ f2) = {b \<in> set (xs @ c # ys). is_free (h' b)}"
    using setfl cut(1,2) by (auto simp: F)
  have naf': "no_adjacent_free h' (xs @ c # ys)"
    using naf by (rule no_adjacent_free_mono[rotated]) (simp add: F split: if_splits)
  show "well_formed s' (xs @ c # ys) (f1 @ f2)"
    using seg' path' setfl' szs naf' unfolding well_formed_def h'_def by (simp add: B[unfolded h'_def])
qed

lemma my_malloc_well_formed:
  assumes wf: "well_formed s bs fl" and n: "1 \<le> n" "n \<le> 2^64 - 32"
  obtains (oom) "my_malloc s n = Some (None, s)"
      "\<And>b. b \<in> set fl \<Longrightarrow> bsize (heap_buffer s b) < 24 + align_size n"
  | (split) xs c ys f1 f2 s' where "bs = xs @ c # ys" "fl = f1 @ c # f2"
      "\<And>x. x \<in> set f1 \<Longrightarrow> bsize (heap_buffer s x) < 24 + align_size n"
      "24 + align_size n + 32 \<le> bsize (heap_buffer s c)"
      "my_malloc s n = Some (Some (c + 24), s')"
      "well_formed s' (xs @ c # (c + (24 + align_size n)) # ys) (f1 @ (c + (24 + align_size n)) # f2)"
      "\<And>a. bsize (heap_buffer s' a) =
           (if a = c then 24 + align_size n
            else if a = c + (24 + align_size n) then bsize (heap_buffer s c) - (24 + align_size n)
            else bsize (heap_buffer s a))"
      "\<And>a. is_free (heap_buffer s' a) =
           (if a = c then False else if a = c + (24 + align_size n) then True
            else is_free (heap_buffer s a))"
  | (whole) xs c ys f1 f2 s' where "bs = xs @ c # ys" "fl = f1 @ c # f2"
      "\<And>x. x \<in> set f1 \<Longrightarrow> bsize (heap_buffer s x) < 24 + align_size n"
      "24 + align_size n \<le> bsize (heap_buffer s c)"
      "bsize (heap_buffer s c) < 24 + align_size n + 32"
      "my_malloc s n = Some (Some (c + 24), s')"
      "well_formed s' bs (f1 @ f2)"
      "\<And>a. bsize (heap_buffer s' a) = bsize (heap_buffer s a)"
      "\<And>a. is_free (heap_buffer s' a) = (if a = c then False else is_free (heap_buffer s a))"
proof -
  define tot where "tot = 24 + align_size n"
  have w: "wrap (sizeof_BlockHeader + align_size n) = tot"
    using total_size_eq(1)[OF n] by (simp add: tot_def)
  have path: "link_path (heap_buffer s) (free_list s) fl None"
    and setfl: "set fl = {b \<in> set bs. is_free (heap_buffer s b)}"
    using wf by (simp_all add: well_formed_def)
  have m: "my_malloc s n = malloc_search s n tot (free_list s) None"
    using n w by (simp add: my_malloc_def Let_def)
  show thesis
  proof (cases "\<exists>c \<in> set fl. tot \<le> bsize (heap_buffer s c)")
    case False
    then have small: "\<And>b. b \<in> set fl \<Longrightarrow> bsize (heap_buffer s b) < tot" by auto
    have "my_malloc s n = Some (None, s)"
      unfolding m using path small by (rule malloc_search_none)
    then show ?thesis using small by (intro oom) (simp_all add: tot_def)
  next
    case True
    then obtain f1 c f2 where fl: "fl = f1 @ c # f2" and fit: "tot \<le> bsize (heap_buffer s c)"
      and first: "\<forall>x \<in> set f1. \<not> tot \<le> bsize (heap_buffer s x)"
      using split_list_first_prop[of fl "\<lambda>c. tot \<le> bsize (heap_buffer s c)"] by blast
    have "c \<in> set bs" using setfl fl by auto
    then obtain xs ys where bs: "bs = xs @ c # ys" by (auto dest: split_list)
    define s' where "s' = snd (take_block s n c (if f1 = [] then None else Some (last f1)))"
    have "malloc_search s n tot (free_list s) None =
            Some (take_block s n c (if f1 = [] then None else Some (last f1)))"
      using path[unfolded fl] first fit by (intro malloc_search_fit[where q=None and ys=f2]) auto
    then have r: "my_malloc s n = Some (Some (c + 24), s')"
      unfolding m s'_def using take_block_fst[of s n c "if f1 = [] then None else Some (last f1)"]
      by (metis prod.collapse)
    have lt: "\<And>x. x \<in> set f1 \<Longrightarrow> bsize (heap_buffer s x) < 24 + align_size n"
      using first by (auto simp: tot_def)
    show ?thesis
    proof (cases "tot + 32 \<le> bsize (heap_buffer s c)")
      case True
      note r' = take_block_split_wf[OF wf[unfolded bs fl] n tot_def True s'_def]
      show ?thesis
        using bs fl lt True r r' unfolding tot_def by (intro split[of xs c ys f1 f2 s']) simp_all
    next
      case False
      then have small: "bsize (heap_buffer s c) < tot + 32" by simp
      note r' = take_block_whole_wf[OF wf[unfolded bs fl] n tot_def fit small s'_def]
      show ?thesis
        using bs fl lt fit small r r' unfolding tot_def by (intro whole[of xs c ys f1 f2 s']) simp_all
    qed
  qed
qed

subsection \<open>Release keeps the heap well formed\<close>

lemma remove_from_free_list_path:
  assumes path: "link_path (heap_buffer s) (free_list s) (g1 @ nb # g2) None"
  shows "\<exists>s1. remove_from_free_list s nb = Some s1
           \<and> link_path (heap_buffer s1) (free_list s1) (g1 @ g2) None
           \<and> (\<forall>a. bsize (heap_buffer s1 a) = bsize (heap_buffer s a))
           \<and> (\<forall>a. is_free (heap_buffer s1 a) = is_free (heap_buffer s a))"
proof -
  define h where "h = heap_buffer s"
  note cut = free_list_cut[OF path[folded h_def]]
  show ?thesis
  proof (cases "g1 = []")
    case True
    then have "remove_from_free_list s nb = Some (s\<lparr>free_list := bnext (h nb)\<rparr>)"
      using cut(8) by (simp add: remove_from_free_list_def h_def)
    then show ?thesis using cut(7) True by (simp add: h_def)
  next
    case False
    define p where "p = last g1"
    have g1: "g1 = butlast g1 @ [p]" using False by (simp add: p_def)
    have "link_path h (free_list s) (butlast g1 @ [p]) (Some nb)" using cut(6) g1 by simp
    moreover have "nb \<notin> set (butlast g1)" "nb \<noteq> p"
      using cut(1) False by (auto simp: p_def dest: in_set_butlastD)
    ultimately have fl: "find_link h nb (free_list s) = Some (Some p)"
      by (rule find_link_found)
    obtain y where ne: "free_list s = Some y" "y \<noteq> nb"
      using cut(9)[OF False] cut(6) False by (cases g1) auto
    define s1 where "s1 = s\<lparr>heap_buffer := h(p := (h p)\<lparr>bnext := bnext (h nb)\<rparr>)\<rparr>"
    have r: "remove_from_free_list s nb = Some s1"
      using ne fl by (simp add: remove_from_free_list_def h_def[symmetric] s1_def)
    have "link_path (heap_buffer s1) (free_list s1) g1 (bnext (h nb))"
    proof (rule link_path_redirect[OF cut(6)])
      fix x assume x: "x \<in> set (butlast g1)"
      then have "x \<noteq> p" unfolding p_def using cut(4) by (rule butlast_not_last)
      then show "bnext (heap_buffer s1 x) = bnext (h x)" by (simp add: s1_def)
    next
      show "g1 \<noteq> [] \<Longrightarrow> bnext (heap_buffer s1 (last g1)) = bnext (h nb) \<and> free_list s1 = free_list s"
        by (simp add: s1_def p_def)
      show "g1 = [] \<Longrightarrow> free_list s1 = bnext (h nb)" using False by simp
    qed
    moreover have "link_path (heap_buffer s1) (bnext (h nb)) g2 None"
    proof -
      have "p \<in> set g1" using False by (simp add: p_def)
      then have "p \<notin> set g2" using cut(3) by auto
      then have "\<And>x. x \<in> set g2 \<Longrightarrow> bnext (heap_buffer s1 x) = bnext (h x)"
        by (auto simp: s1_def)
      then show ?thesis using cut(7) by (simp add: link_path_cong[of g2 "heap_buffer s1" h])
    qed
    ultimately have "link_path (heap_buffer s1) (free_list s1) (g1 @ g2) None"
      by (auto simp: link_path_append)
    with r show ?thesis by (simp add: s1_def h_def)
  qed
qed

lemma merge_next_effect:
  assumes seg: "blocks_seg (heap_buffer s) 0 (xs @ b # ys) HEAP_SIZE"
    and path: "link_path (heap_buffer s) (free_list s) fl None"
    and inl: "\<And>y. y \<in> set ys \<Longrightarrow> is_free (heap_buffer s y) \<Longrightarrow> y \<in> set fl"
    and N: "N = (ys \<noteq> [] \<and> is_free (heap_buffer s (hd ys)))"
  shows "\<exists>s1. merge_next s b = Some s1
           \<and> link_path (heap_buffer s1) (free_list s1) (if N then remove1 (hd ys) fl else fl) None
           \<and> (\<forall>a. is_free (heap_buffer s1 a) = is_free (heap_buffer s a))
           \<and> (\<forall>a. bsize (heap_buffer s1 a) =
                  (if a = b \<and> N then bsize (heap_buffer s b) + bsize (heap_buffer s (hd ys))
                   else bsize (heap_buffer s a)))"
proof -
  define h where "h = heap_buffer s"
  have segb: "blocks_seg h 0 xs b" "0 < bsize (h b)" "blocks_seg h (b + bsize (h b)) ys HEAP_SIZE"
    using seg by (simp_all add: blocks_seg_mid h_def)
  show ?thesis
  proof (cases ys)
    case Nil
    then have "b + bsize (h b) = HEAP_SIZE" using segb by simp
    then show ?thesis using path N Nil by (simp add: merge_next_def h_def)
  next
    case (Cons nb ys')
    then have nb: "nb = b + bsize (h b)" and lt: "b + bsize (h b) < HEAP_SIZE"
      using segb(3) blocks_seg_lt[of h "b + bsize (h b)" nb ys' HEAP_SIZE] by auto
    show ?thesis
    proof (cases "is_free (h nb)")
      case False
      then show ?thesis using path N Cons lt nb by (simp add: merge_next_def h_def)
    next
      case True
      then have "nb \<in> set fl" using inl[of nb] Cons by (simp add: h_def)
      then obtain g1 g2 where fl: "fl = g1 @ nb # g2" by (auto dest: split_list)
      have "nb \<notin> set g1" using free_list_cut(1)[OF path[unfolded fl]] .
      then have rm: "remove1 nb fl = g1 @ g2" by (simp add: fl remove1_append)
      from remove_from_free_list_path[OF path[unfolded fl]]
      obtain s1 where r: "remove_from_free_list s nb = Some s1"
        and p1: "link_path (heap_buffer s1) (free_list s1) (g1 @ g2) None"
        and b1: "\<And>a. bsize (heap_buffer s1 a) = bsize (h a)"
        and f1: "\<And>a. is_free (heap_buffer s1 a) = is_free (h a)"
        by (auto simp: h_def)
      define s2 where "s2 = s1\<lparr>heap_buffer := (heap_buffer s1)
                (b := (heap_buffer s1 b)\<lparr>bsize := wrap (bsize (heap_buffer s1 b) + bsize (heap_buffer s1 nb))\<rparr>)\<rparr>"
      have m: "merge_next s b = Some s2"
        using lt True r nb by (simp add: merge_next_def h_def[symmetric] Let_def s2_def)
      have b0: "0 \<le> b" using blocks_seg_le[OF segb(1)] .
      have "nb + bsize (h nb) \<le> HEAP_SIZE" "0 < bsize (h nb)"
        using blocks_seg_bounds[OF segb(3), of nb] Cons by simp_all
      then have w: "wrap (bsize (h b) + bsize (h nb)) = bsize (h b) + bsize (h nb)"
        using nb b0 segb(2) by (simp add: wrap_def HEAP_SIZE_def)
      have "link_path (heap_buffer s2) (free_list s1) (g1 @ g2) None
            = link_path (heap_buffer s1) (free_list s1) (g1 @ g2) None"
        by (rule link_path_cong) (simp add: s2_def)
      then have "link_path (heap_buffer s2) (free_list s2) (g1 @ g2) None"
        using p1 by (simp add: s2_def)
      moreover have "\<forall>a. is_free (heap_buffer s2 a) = is_free (h a)"
        using f1 by (simp add: s2_def)
      moreover have "\<forall>a. bsize (heap_buffer s2 a) =
                  (if a = b then bsize (h b) + bsize (h nb) else bsize (h a))"
        using b1 w by (simp add: s2_def)
      ultimately show ?thesis using m N Cons True rm by (simp add: h_def)
    qed
  qed
qed

lemma my_free_effect:
  assumes wf: "well_formed s (xs @ b # ys) fl" and used: "\<not> is_free (heap_buffer s b)"
    and P: "P = (xs \<noteq> [] \<and> is_free (heap_buffer s (last xs)))"
    and N: "N = (ys \<noteq> [] \<and> is_free (heap_buffer s (hd ys)))"
  shows "\<exists>s'. my_free s (Some (b + 24)) = Some (Released, s')
     \<and> (\<forall>a. is_free (heap_buffer s' a) = (a = b \<or> is_free (heap_buffer s a)))
     \<and> (\<forall>a. bsize (heap_buffer s' a) =
           (if a = b \<and> N then bsize (heap_buffer s b) + bsize (heap_buffer s (hd ys))
            else if P \<and> a = last xs
              then bsize (heap_buffer s (last xs)) + bsize (heap_buffer s b)
                   + (if N then bsize (heap_buffer s (hd ys)) else 0)
            else bsize (heap_buffer s a)))
     \<and> link_path (heap_buffer s') (free_list s')
           ((if P then [] else [b]) @ (if N then remove1 (hd ys) fl else fl)) None"
proof -
  define h where "h = heap_buffer s"
  have seg: "blocks_seg h 0 (xs @ b # ys) HEAP_SIZE"
    and path: "link_path h (free_list s) fl None"
    and setfl: "set fl = {x \<in> set (xs @ b # ys). is_free (h x)}"
    using wf by (simp_all add: well_formed_def h_def)
  have dist: "distinct (xs @ b # ys)" using seg by (rule blocks_seg_distinct)
  have bfl: "b \<notin> set fl" using setfl used by (simp add: h_def)
  have valid: "is_valid_ptr (get_header (b + 24))"
    using well_formed_block_size(1,2)[OF wf, of b]
    by (simp add: is_valid_ptr_def get_header_def sizeof_BlockHeader_def)
  define s0 where "s0 = s\<lparr>heap_buffer :=
      (h(b := (h b)\<lparr>is_free := True\<rparr>))(b := ((h(b := (h b)\<lparr>is_free := True\<rparr>)) b)\<lparr>bnext := None\<rparr>)\<rparr>"
  define h0 where "h0 = heap_buffer s0"
  have h0: "\<And>a. bsize (h0 a) = bsize (h a)" "\<And>a. is_free (h0 a) = (a = b \<or> is_free (h a))"
    "\<And>a. a \<noteq> b \<Longrightarrow> bnext (h0 a) = bnext (h a)" "free_list s0 = free_list s"
    by (simp_all add: h0_def s0_def)
  have fr: "my_free s (Some (b + 24)) =
     (case coalesce_block s0 b of
        None \<Rightarrow> None
      | Some (None, s1) \<Rightarrow> Some (Released, s1)
      | Some (Some block_to_insert, s1) \<Rightarrow>
          Some (Released, s1\<lparr>heap_buffer := (heap_buffer s1)
                 (block_to_insert := (heap_buffer s1 block_to_insert)\<lparr>bnext := free_list s1\<rparr>),
               free_list := Some block_to_insert\<rparr>))"
    using valid used
    by (simp add: my_free_def Let_def s0_def h_def get_header_def sizeof_BlockHeader_def
        split: option.split prod.split)
  have seg0: "blocks_seg h0 0 (xs @ b # ys) HEAP_SIZE"
    using seg by (simp add: blocks_seg_cong[of _ h0 h] h0)
  have path0: "link_path h0 (free_list s0) fl None"
  proof -
    have "link_path h0 (free_list s) fl None = link_path h (free_list s) fl None"
    proof (rule link_path_cong)
      fix x assume "x \<in> set fl"
      with bfl have "x \<noteq> b" by auto
      then show "bnext (h0 x) = bnext (h x)" by (rule h0(3))
    qed
    then show ?thesis using path h0 by simp
  qed
  have inl0: "\<And>y. y \<in> set ys \<Longrightarrow> is_free (h0 y) \<Longrightarrow> y \<in> set fl"
    using setfl dist by (auto simp: h0)
  have hdys: "ys \<noteq> [] \<Longrightarrow> hd ys \<noteq> b"
    using dist by (cases ys) auto
  have N0: "N = (ys \<noteq> [] \<and> is_free (h0 (hd ys)))"
    using hdys by (auto simp: N h0 h_def)
  define fl1 where "fl1 = (if N then remove1 (hd ys) fl else fl)"
  obtain s1 where m: "merge_next s0 b = Some s1"
    and path1: "link_path (heap_buffer s1) (free_list s1) fl1 None"
    and f1: "\<And>a. is_free (heap_buffer s1 a) = (a = b \<or> is_free (h a))"
    and b1: "\<And>a. bsize (heap_buffer s1 a) =
                  (if a = b \<and> N then bsize (h b) + bsize (h (hd ys)) else bsize (h a))"
    using merge_next_effect[of s0 xs b ys fl N, folded h0_def, OF seg0 path0 inl0 N0]
    by (auto simp: h0 fl1_def)
  define h1 where "h1 = heap_buffer s1"
  have lastxs: "xs \<noteq> [] \<Longrightarrow> last xs \<noteq> b"
    using dist last_in_set[of xs] by auto
  have seg1: "blocks_seg h1 0 xs b"
  proof -
    have "blocks_seg h1 0 xs b = blocks_seg h 0 xs b"
      using dist by (intro blocks_seg_cong) (auto simp: h1_def b1)
    then show ?thesis using seg by (simp add: blocks_seg_mid)
  qed
  have fp: "find_prev_block h1 b 0 = Some (if P then Some (last xs) else None)"
    using find_prev_block_seg[OF seg1] lastxs by (auto simp: P h1_def f1 h_def)
  have bfl1: "b \<notin> set fl1" using bfl by (auto simp: fl1_def dest: notin_set_remove1)
  show ?thesis
  proof (cases P)
    case True
    define pb where "pb = last xs"
    have pbb: "pb \<noteq> b" using True lastxs by (simp add: P pb_def)
    define s2 where "s2 = s1\<lparr>heap_buffer := h1(pb := (h1 pb)\<lparr>bsize := wrap (bsize (h1 pb) + bsize (h1 b))\<rparr>)\<rparr>"
    have co: "coalesce_block s0 b = Some (None, s2)"
      using m fp True by (simp add: coalesce_block_def h1_def[symmetric] s2_def pb_def Let_def)
    have r: "my_free s (Some (b + 24)) = Some (Released, s2)"
      unfolding fr co by simp
    have xs: "xs = butlast xs @ [pb]" using True by (simp add: P pb_def)
    have "blocks_seg h 0 (butlast xs @ pb # b # ys) HEAP_SIZE" using seg xs
      by (metis append.assoc append_Cons append_Nil)
    then have pbe: "pb + bsize (h pb) = b" "0 \<le> pb" "0 < bsize (h pb)"
      using blocks_seg_le[of h 0 "butlast xs" pb] by (auto simp: blocks_seg_mid)
    have be: "b + bsize (h1 b) \<le> HEAP_SIZE" "0 < bsize (h1 b)"
    proof -
      have e: "blocks_seg h (b + bsize (h b)) ys HEAP_SIZE" "0 < bsize (h b)"
        using seg by (simp_all add: blocks_seg_mid)
      show "b + bsize (h1 b) \<le> HEAP_SIZE"
      proof (cases N)
        case True
        then have "hd ys \<in> set ys" by (simp add: N)
        from blocks_seg_bounds[OF e(1) this] show ?thesis
          using e True by (cases ys) (auto simp: h1_def b1)
      next
        case False
        then show ?thesis using blocks_seg_le[OF e(1)] by (simp add: h1_def b1)
      qed
      show "0 < bsize (h1 b)"
      proof (cases N)
        case True
        then have "hd ys \<in> set ys" by (simp add: N)
        from blocks_seg_bounds[OF e(1) this] show ?thesis
          using e True by (simp add: h1_def b1)
      next
        case False
        then show ?thesis using e by (simp add: h1_def b1)
      qed
    qed
    have w: "wrap (bsize (h1 pb) + bsize (h1 b)) = bsize (h pb) + bsize (h1 b)"
      using pbe be pbb by (simp add: wrap_def h1_def b1 HEAP_SIZE_def)
    have "link_path (heap_buffer s2) (free_list s1) fl1 None
            = link_path (heap_buffer s1) (free_list s1) fl1 None"
      by (rule link_path_cong) (simp add: s2_def h1_def)
    then have p2: "link_path (heap_buffer s2) (free_list s2) fl1 None"
      using path1 by (simp add: s2_def)
    have f2: "\<forall>a. is_free (heap_buffer s2 a) = (a = b \<or> is_free (h a))"
      using f1 by (simp add: s2_def h1_def)
    have b2: "\<forall>a. bsize (heap_buffer s2 a) =
           (if a = b \<and> N then bsize (h b) + bsize (h (hd ys))
            else if a = pb then bsize (h pb) + bsize (h b) + (if N then bsize (h (hd ys)) else 0)
            else bsize (h a))"
      using w pbb b1 by (simp add: s2_def h1_def)
    show ?thesis
      using r p2 f2 b2 True by (simp add: h_def pb_def fl1_def)
  next
    case False
    define s2 where "s2 = s1\<lparr>heap_buffer := h1(b := (h1 b)\<lparr>bnext := free_list s1\<rparr>),
               free_list := Some b\<rparr>"
    have co: "coalesce_block s0 b = Some (Some b, s1)"
      using m fp False by (simp add: coalesce_block_def h1_def[symmetric])
    have r: "my_free s (Some (b + 24)) = Some (Released, s2)"
      unfolding fr co by (simp add: s2_def h1_def)
    have "link_path (heap_buffer s2) (free_list s1) fl1 None
            = link_path (heap_buffer s1) (free_list s1) fl1 None"
      using bfl1 by (intro link_path_cong) (auto simp: s2_def h1_def)
    then have p2: "link_path (heap_buffer s2) (free_list s2) (b # fl1) None"
      using path1 by (simp add: s2_def)
    have f2: "\<forall>a. is_free (heap_buffer s2 a) = (a = b \<or> is_free (h a))"
      using f1 by (simp add: s2_def h1_def)
    have b2: "\<forall>a. bsize (heap_buffer s2 a) =
           (if a = b \<and> N then bsize (h b) + bsize (h (hd ys)) else bsize (h a))"
      using b1 by (simp add: s2_def h1_def)
    show ?thesis
      using r p2 f2 b2 False by (simp add: h_def fl1_def)
  qed
qed

lemma my_free_well_formed:
  assumes wf: "well_formed s (xs @ b # ys) fl" and used: "\<not> is_free (heap_buffer s b)"
    and P: "P = (xs \<noteq> [] \<and> is_free (heap_buffer s (last xs)))"
    and N: "N = (ys \<noteq> [] \<and> is_free (heap_buffer s (hd ys)))"
  shows "\<exists>s'. my_free s (Some (b + 24)) = Some (Released, s')
     \<and> well_formed s'
          ((if P then butlast xs else xs) @ (if P then last xs else b) # (if N then tl ys else ys))
          ((if P then [] else [b]) @ (if N then remove1 (hd ys) fl else fl))
     \<and> (\<forall>a. is_free (heap_buffer s' a) = (a = b \<or> is_free (heap_buffer s a)))
     \<and> (\<forall>a. bsize (heap_buffer s' a) =
           (if a = b \<and> N then bsize (heap_buffer s b) + bsize (heap_buffer s (hd ys))
            else if P \<and> a = last xs
              then bsize (heap_buffer s (last xs)) + bsize (heap_buffer s b)
                   + (if N then bsize (heap_buffer s (hd ys)) else 0)
            else bsize (heap_buffer s a)))"
proof -
  define h where "h = heap_buffer s"
  define pb where "pb = last xs"
  define nb where "nb = hd ys"
  define xs' where "xs' = (if P then butlast xs else xs)"
  define ys' where "ys' = (if N then tl ys else ys)"
  define m where "m = (if P then pb else b)"
  define fl1 where "fl1 = (if N then remove1 nb fl else fl)"
  define fl' where "fl' = (if P then [] else [b]) @ fl1"
  obtain s' where r: "my_free s (Some (b + 24)) = Some (Released, s')"
    and F: "\<And>a. is_free (heap_buffer s' a) = (a = b \<or> is_free (h a))"
    and B: "\<And>a. bsize (heap_buffer s' a) =
           (if a = b \<and> N then bsize (h b) + bsize (h nb)
            else if P \<and> a = pb then bsize (h pb) + bsize (h b) + (if N then bsize (h nb) else 0)
            else bsize (h a))"
    and path': "link_path (heap_buffer s') (free_list s') fl' None"
    using my_free_effect[OF wf used P N] unfolding h_def pb_def nb_def fl'_def fl1_def by blast
  define h' where "h' = heap_buffer s'"
  have seg: "blocks_seg h 0 (xs @ b # ys) HEAP_SIZE"
    and path: "link_path h (free_list s) fl None"
    and setfl: "set fl = {x \<in> set (xs @ b # ys). is_free (h x)}"
    and naf: "no_adjacent_free h (xs @ b # ys)"
    and szs: "\<forall>x \<in> set (xs @ b # ys). bsize (h x) mod ALIGN_SIZE = 0
                    \<and> sizeof_BlockHeader + ALIGN_SIZE \<le> bsize (h x)"
    using wf by (simp_all add: well_formed_def h_def)
  have dist: "distinct (xs @ b # ys)" using seg by (rule blocks_seg_distinct)
  have dfl: "distinct fl" using path by (rule link_path_distinct)
  have xs: "xs = xs' @ (if P then [pb] else [])"
    by (simp add: xs'_def pb_def P)
  have ys: "ys = (if N then [nb] else []) @ ys'"
    by (simp add: ys'_def nb_def N)
  have pfree: "P \<Longrightarrow> is_free (h pb)" and nfree: "N \<Longrightarrow> is_free (h nb)"
    by (simp_all add: P N pb_def nb_def h_def)
  have bfree: "\<not> is_free (h b)" using used by (simp add: h_def)
  \<comment> \<open>the old list of blocks, with the neighbours that merge made explicit\<close>
  have seg_all: "blocks_seg h 0 (xs' @ (if P then [pb] else []) @ b # (if N then [nb] else []) @ ys') HEAP_SIZE"
    using seg xs ys by (metis append.assoc append_Cons)
  have dist_all: "distinct (xs' @ (if P then [pb] else []) @ b # (if N then [nb] else []) @ ys')"
    using seg_all by (rule blocks_seg_distinct)
  have set_all: "set (xs @ b # ys) = set xs' \<union> (if P then {pb} else {}) \<union> {b} \<union> (if N then {nb} else {}) \<union> set ys'"
    by (subst xs, subst ys) auto
  \<comment> \<open>sizes of the blocks that stay\<close>
  have Bx: "\<And>a. a \<in> set xs' \<Longrightarrow> bsize (h' a) = bsize (h a)"
    and By: "\<And>a. a \<in> set ys' \<Longrightarrow> bsize (h' a) = bsize (h a)"
    and Fx: "\<And>a. a \<in> set xs' \<Longrightarrow> is_free (h' a) = is_free (h a)"
    and Fy: "\<And>a. a \<in> set ys' \<Longrightarrow> is_free (h' a) = is_free (h a)"
    using dist_all by (auto simp: h'_def B F split: if_splits)
  have Bm: "bsize (h' m) = (if P then bsize (h pb) else 0) + bsize (h b) + (if N then bsize (h nb) else 0)"
    and Fm: "is_free (h' m)"
    using dist_all pfree by (auto simp: h'_def B F m_def split: if_splits)
  \<comment> \<open>the blocks\<close>
  have segs: "blocks_seg h 0 xs' m"
    "m + ((if P then bsize (h pb) else 0) + bsize (h b) + (if N then bsize (h nb) else 0))
       = b + bsize (h b) + (if N then bsize (h nb) else 0)"
    "blocks_seg h (b + bsize (h b) + (if N then bsize (h nb) else 0)) ys' HEAP_SIZE"
    "0 < bsize (h b)" "N \<Longrightarrow> 0 < bsize (h nb)" "P \<Longrightarrow> 0 < bsize (h pb)"
    using seg_all by (auto simp: blocks_seg_append m_def split: if_splits)
  have seg': "blocks_seg h' 0 (xs' @ m # ys') HEAP_SIZE"
  proof -
    have "blocks_seg h' 0 xs' m" using segs(1) Bx by (simp add: blocks_seg_cong[of xs' h' h])
    moreover have "blocks_seg h' (m + bsize (h' m)) ys' HEAP_SIZE"
    proof -
      have "m + bsize (h' m) = b + bsize (h b) + (if N then bsize (h nb) else 0)"
        unfolding Bm using segs(2) by (cases P; cases N; simp)
      then show ?thesis using segs(3) By by (simp add: blocks_seg_cong[of ys' h' h])
    qed
    moreover have "0 < bsize (h' m)" unfolding Bm using segs(4,5,6) by auto
    ultimately show ?thesis by (simp add: blocks_seg_mid)
  qed
  \<comment> \<open>who is free\<close>
  have set1: "set fl1 = set fl - (if N then {nb} else {})"
    using dfl by (simp add: fl1_def)
  have setfl': "set fl' = {x \<in> set (xs' @ m # ys'). is_free (h' x)}"
  proof -
    have "set fl' = (if P then {} else {b}) \<union> (set fl - (if N then {nb} else {}))"
      by (simp add: fl'_def set1)
    also have "\<dots> = {x \<in> set (xs' @ m # ys'). is_free (h' x)}"
      unfolding setfl set_all using dist_all pfree nfree bfree Fm
      by (auto simp: Fx Fy m_def split: if_splits)
    finally show ?thesis .
  qed
  \<comment> \<open>sizes\<close>
  have szs': "\<forall>x \<in> set (xs' @ m # ys'). bsize (h' x) mod ALIGN_SIZE = 0
                    \<and> sizeof_BlockHeader + ALIGN_SIZE \<le> bsize (h' x)"
  proof
    fix x assume x: "x \<in> set (xs' @ m # ys')"
    have a: "\<And>y. y \<in> set (xs @ b # ys) \<Longrightarrow> bsize (h y) mod 8 = 0 \<and> 32 \<le> bsize (h y)"
      using szs by (auto simp add: ALIGN_SIZE_def sizeof_BlockHeader_def)
    have "bsize (h' x) mod 8 = 0 \<and> 32 \<le> bsize (h' x)"
    proof (cases "x = m")
      case True
      have b: "bsize (h b) mod 8 = 0 \<and> 32 \<le> bsize (h b)" using a[of b] by simp
      have p: "P \<Longrightarrow> bsize (h pb) mod 8 = 0 \<and> 32 \<le> bsize (h pb)"
        using a[of pb] by (simp add: P pb_def)
      have n: "N \<Longrightarrow> bsize (h nb) mod 8 = 0 \<and> 32 \<le> bsize (h nb)"
        using a[of nb] by (simp add: N nb_def)
      show ?thesis unfolding True Bm using b p n by (cases P; cases N; simp) presburger+
    next
      case False
      with x have xin: "x \<in> set xs' \<union> set ys'" by auto
      then have "x \<in> set (xs @ b # ys)" unfolding set_all by auto
      then show ?thesis using a[of x] Bx[of x] By[of x] xin by auto
    qed
    then show "bsize (h' x) mod ALIGN_SIZE = 0 \<and> sizeof_BlockHeader + ALIGN_SIZE \<le> bsize (h' x)"
      by (simp add: ALIGN_SIZE_def sizeof_BlockHeader_def)
  qed
  \<comment> \<open>no two free neighbours\<close>
  have naf': "no_adjacent_free h' (xs' @ m # ys')"
  proof -
    have "no_adjacent_free h xs" "no_adjacent_free h ys"
      using naf
      by (simp_all add: no_adjacent_free_append[of h xs b ys] no_adjacent_free_snoc[of h xs b]
          no_adjacent_free_Cons[of h b ys])
    then have nx: "no_adjacent_free h (xs' @ (if P then [pb] else []))"
      and ny: "no_adjacent_free h ((if N then [nb] else []) @ ys')"
      using xs ys by simp_all
    have 1: "no_adjacent_free h' xs'"
    proof -
      have "no_adjacent_free h xs'" using nx by (auto simp: no_adjacent_free_snoc split: if_splits)
      then show ?thesis using Fx by (simp add: no_adjacent_free_cong[of xs' h' h])
    qed
    have 2: "no_adjacent_free h' ys'"
    proof -
      have "no_adjacent_free h ys'" using ny by (auto simp: no_adjacent_free_Cons split: if_splits)
      then show ?thesis using Fy by (simp add: no_adjacent_free_cong[of ys' h' h])
    qed
    have 3: "xs' \<noteq> [] \<Longrightarrow> \<not> is_free (h' (last xs'))"
    proof -
      assume ne: "xs' \<noteq> []"
      have "\<not> is_free (h (last xs'))"
      proof (cases P)
        case True
        then show ?thesis using nx ne pfree by (simp add: no_adjacent_free_snoc)
      next
        case False
        then have "xs' = xs" by (simp add: xs'_def)
        then show ?thesis using False ne by (simp add: P h_def)
      qed
      then show ?thesis using Fx[of "last xs'"] ne by simp
    qed
    have 4: "ys' \<noteq> [] \<Longrightarrow> \<not> is_free (h' (hd ys'))"
    proof -
      assume ne: "ys' \<noteq> []"
      have "\<not> is_free (h (hd ys'))"
      proof (cases N)
        case True
        then show ?thesis using ny ne nfree by (simp add: no_adjacent_free_Cons)
      next
        case False
        then have "ys' = ys" by (simp add: ys'_def)
        then show ?thesis using False ne by (simp add: N h_def)
      qed
      then show ?thesis using Fy[of "hd ys'"] ne by simp
    qed
    show ?thesis
      using 1 2 3 4
      by (simp add: no_adjacent_free_append[of h' xs' m ys'] no_adjacent_free_snoc
          no_adjacent_free_Cons[of h' m])
  qed
  have "well_formed s' (xs' @ m # ys') fl'"
    using seg' path' setfl' szs' naf' unfolding well_formed_def h'_def by simp
  then show ?thesis
    using r F B unfolding xs'_def m_def ys'_def fl'_def fl1_def pb_def nb_def h_def by blast
qed

subsection \<open>Reachable states\<close>

lemma my_free_ignored:
  "my_free s q = Some (rep, s') \<Longrightarrow> rep \<noteq> Released \<Longrightarrow> s' = s"
  by (auto simp: my_free_def Let_def split: option.splits if_splits prod.splits)

lemma my_malloc_zero: "my_malloc s 0 = Some (None, s)"
  by (simp add: my_malloc_def)

lemma init_well_formed: "well_formed init_allocator [0] [0]"
  by (simp add: well_formed_def init_allocator_def HEAP_SIZE_def ALIGN_SIZE_def sizeof_BlockHeader_def)

lemma init_live_blocks: "live_blocks init_allocator [0] Map.empty"
  by (simp add: live_blocks_def init_allocator_def)

lemma my_malloc_live_blocks:
  assumes wf: "well_formed s bs fl" and lv: "live_blocks s bs live"
    and n: "0 \<le> n" "n \<le> 2^64 - 32" and m: "my_malloc s n = Some (r, s')"
  shows "\<exists>bs' fl'. well_formed s' bs' fl' \<and> live_blocks s' bs' (case r of None \<Rightarrow> live | Some p \<Rightarrow> live(p \<mapsto> n))"
proof (cases "n = 0")
  case True
  then show ?thesis using m wf lv by (auto simp: my_malloc_zero)
next
  case False
  then have n1: "1 \<le> n" using n by simp
  have dom: "\<And>p. (p \<in> dom live) = (p - 24 \<in> set bs \<and> \<not> is_free (heap_buffer s (p - 24)))"
    and sz: "\<And>p k. live p = Some k \<Longrightarrow> 1 \<le> k \<and> k \<le> 2 ^ 64 - 32 \<and>
         24 + align_size k \<le> bsize (heap_buffer s (p - 24))"
    using lv by (auto simp: live_blocks_def get_header_def sizeof_BlockHeader_def)
  have setfl: "set fl = {b \<in> set bs. is_free (heap_buffer s b)}"
    and seg: "blocks_seg (heap_buffer s) 0 bs HEAP_SIZE"
    using wf by (simp_all add: well_formed_def)
  from wf n1 n(2) show ?thesis
  proof (cases rule: my_malloc_well_formed)
    case oom
    then show ?thesis using m wf lv by auto
  next
    case (split xs c ys f1 f2 s1)
    define nb where "nb = c + (24 + align_size n)"
    have eq: "r = Some (c + 24)" "s' = s1" using m split(5) by auto
    have cfree: "is_free (heap_buffer s c)" "c \<in> set bs" using setfl split(2) by auto
    have nbn: "nb \<notin> set bs"
    proof -
      have "blocks_seg (heap_buffer s1) 0 (xs @ c # nb # ys) HEAP_SIZE"
        using split(6) by (simp add: well_formed_def nb_def)
      then have "distinct (xs @ c # nb # ys)" by (rule blocks_seg_distinct)
      then show ?thesis using split(1) by auto
    qed
    have B: "\<And>a. bsize (heap_buffer s1 a) = (if a = c then 24 + align_size n
            else if a = nb then bsize (heap_buffer s c) - (24 + align_size n)
            else bsize (heap_buffer s a))"
      and F: "\<And>a. is_free (heap_buffer s1 a) =
           (if a = c then False else if a = nb then True else is_free (heap_buffer s a))"
      using split(7,8) by (simp_all add: nb_def)
    have "live_blocks s1 (xs @ c # nb # ys) (live(c + 24 \<mapsto> n))"
      unfolding live_blocks_def get_header_def sizeof_BlockHeader_def
    proof (intro conjI allI impI)
      fix p
      show "(p \<in> dom (live(c + 24 \<mapsto> n))) =
           (p - 24 \<in> set (xs @ c # nb # ys) \<and> \<not> is_free (heap_buffer s1 (p - 24)))"
        using dom[of p] cfree nbn split(1) by (auto simp: F)
    next
      fix p k assume a: "(live(c + 24 \<mapsto> n)) p = Some k"
      show "1 \<le> k" "k \<le> 2 ^ 64 - 32"
        using a n1 n(2) sz[of p k] by (auto split: if_splits)
      show "24 + align_size k \<le> bsize (heap_buffer s1 (p - 24))"
      proof (cases "p = c + 24")
        case True
        then show ?thesis using a by (simp add: B)
      next
        case False
        then have l: "live p = Some k" using a by simp
        then have "p - 24 \<in> set bs" using dom[of p] by auto
        then have "p - 24 \<noteq> nb" using nbn by auto
        then show ?thesis using sz[OF l] False by (simp add: B)
      qed
    qed
    then show ?thesis using split(6) eq by (auto simp: nb_def)
  next
    case (whole xs c ys f1 f2 s1)
    have eq: "r = Some (c + 24)" "s' = s1" using m whole(6) by auto
    have cfree: "is_free (heap_buffer s c)" "c \<in> set bs" using setfl whole(2) by auto
    have "live_blocks s1 bs (live(c + 24 \<mapsto> n))"
      unfolding live_blocks_def get_header_def sizeof_BlockHeader_def
    proof (intro conjI allI impI)
      fix p
      show "(p \<in> dom (live(c + 24 \<mapsto> n))) =
           (p - 24 \<in> set bs \<and> \<not> is_free (heap_buffer s1 (p - 24)))"
        using dom[of p] cfree by (auto simp: whole(9))
    next
      fix p k assume a: "(live(c + 24 \<mapsto> n)) p = Some k"
      show "1 \<le> k" "k \<le> 2 ^ 64 - 32"
        using a n1 n(2) sz[of p k] by (auto split: if_splits)
      show "24 + align_size k \<le> bsize (heap_buffer s1 (p - 24))"
        using a sz[of p k] whole(4) by (auto simp: whole(8) split: if_splits)
    qed
    then show ?thesis using whole(7) eq by auto
  qed
qed

lemma my_free_live_blocks:
  assumes wf: "well_formed s bs fl" and lv: "live_blocks s bs live"
    and p: "live p = Some n" and m: "my_free s (Some p) = Some (rep, s')"
  shows "\<exists>bs' fl'. well_formed s' bs' fl' \<and> live_blocks s' bs' (live(p := None))"
proof -
  define b where "b = p - 24"
  have dom: "\<And>q. (q \<in> dom live) = (q - 24 \<in> set bs \<and> \<not> is_free (heap_buffer s (q - 24)))"
    and sz: "\<And>q k. live q = Some k \<Longrightarrow> 1 \<le> k \<and> k \<le> 2 ^ 64 - 32 \<and>
         24 + align_size k \<le> bsize (heap_buffer s (q - 24))"
    using lv by (auto simp: live_blocks_def get_header_def sizeof_BlockHeader_def)
  have bin: "b \<in> set bs" and used: "\<not> is_free (heap_buffer s b)"
    using dom[of p] p by (auto simp: b_def)
  then obtain xs ys where bs: "bs = xs @ b # ys" by (auto dest: split_list)
  define P where "P = (xs \<noteq> [] \<and> is_free (heap_buffer s (last xs)))"
  define N where "N = (ys \<noteq> [] \<and> is_free (heap_buffer s (hd ys)))"
  define bs' where "bs' = (if P then butlast xs else xs) @ (if P then last xs else b) # (if N then tl ys else ys)"
  from my_free_well_formed[OF wf[unfolded bs] used P_def N_def]
  obtain s1 fl' where r: "my_free s (Some (b + 24)) = Some (Released, s1)"
    and wf': "well_formed s1 bs' fl'"
    and F: "\<And>a. is_free (heap_buffer s1 a) = (a = b \<or> is_free (heap_buffer s a))"
    and B: "\<And>a. bsize (heap_buffer s1 a) =
           (if a = b \<and> N then bsize (heap_buffer s b) + bsize (heap_buffer s (hd ys))
            else if P \<and> a = last xs
              then bsize (heap_buffer s (last xs)) + bsize (heap_buffer s b)
                   + (if N then bsize (heap_buffer s (hd ys)) else 0)
            else bsize (heap_buffer s a))"
    unfolding bs'_def by blast
  have eq: "s' = s1" using r m by (simp add: b_def)
  have sx: "set xs = set (butlast xs) \<union> {last xs}" if "xs \<noteq> []"
    using that set_append[of "butlast xs" "[last xs]"] by simp
  have sy: "set ys = {hd ys} \<union> set (tl ys)" if "ys \<noteq> []"
    using that by (cases ys) auto
  have mem: "a \<in> set bs' \<longleftrightarrow> a \<in> set bs" if "a \<noteq> b" "\<not> is_free (heap_buffer s a)" for a
  proof -
    have 1: "a \<in> set (if P then butlast xs else xs) \<longleftrightarrow> a \<in> set xs"
    proof (cases P)
      case True
      then have "a \<noteq> last xs" "xs \<noteq> []" using that by (auto simp: P_def)
      then show ?thesis using True sx by simp
    qed simp
    have 2: "a \<in> set (if N then tl ys else ys) \<longleftrightarrow> a \<in> set ys"
    proof (cases N)
      case True
      then have "a \<noteq> hd ys" "ys \<noteq> []" using that by (auto simp: N_def)
      then show ?thesis using True sy by simp
    qed simp
    have 3: "a \<noteq> (if P then last xs else b)" using that by (auto simp: P_def)
    show ?thesis unfolding bs'_def bs using 1 2 3 that(1) by simp
  qed
  have "live_blocks s1 bs' (live(p := None))"
    unfolding live_blocks_def get_header_def sizeof_BlockHeader_def
  proof (intro conjI allI impI)
    fix q
    show "(q \<in> dom (live(p := None))) = (q - 24 \<in> set bs' \<and> \<not> is_free (heap_buffer s1 (q - 24)))"
    proof (cases "q = p")
      case True
      then show ?thesis by (simp add: F b_def)
    next
      case False
      then have "q - 24 \<noteq> b" by (simp add: b_def)
      then show ?thesis using dom[of q] mem[of "q - 24"] False by (auto simp: F)
    qed
  next
    fix q k assume a: "(live(p := None)) q = Some k"
    then have l: "live q = Some k" and qp: "q \<noteq> p" by (auto split: if_splits)
    show "1 \<le> k" "k \<le> 2 ^ 64 - 32" using sz[OF l] by simp_all
    have "\<not> is_free (heap_buffer s (q - 24))" using dom[of q] l by auto
    then have "\<not> (P \<and> q - 24 = last xs)" by (auto simp: P_def)
    moreover have "q - 24 \<noteq> b" using qp by (simp add: b_def)
    ultimately have "bsize (heap_buffer s1 (q - 24)) = bsize (heap_buffer s (q - 24))"
      unfolding B by auto
    then show "24 + align_size k \<le> bsize (heap_buffer s1 (q - 24))"
      using sz[OF l] by simp
  qed
  then show ?thesis using wf' eq by auto
qed

theorem reach_well_formed:
  "reach s live \<Longrightarrow> \<exists>bs fl. well_formed s bs fl \<and> live_blocks s bs live"
proof (induction rule: reach.induct)
  case init
  show ?case using init_well_formed init_live_blocks by blast
next
  case (allocate s live n r s')
  then obtain bs fl where "well_formed s bs fl" "live_blocks s bs live" by blast
  then show ?case using allocate.hyps(2,3,4) by (rule my_malloc_live_blocks)
next
  case (release s live p n rep s')
  then obtain bs fl where "well_formed s bs fl" "live_blocks s bs live" by blast
  then show ?case using release.hyps(2,3) by (rule my_free_live_blocks)
next
  case (release_ignored s live q rep s')
  then have "s' = s" using my_free_ignored by blast
  then show ?case using release_ignored.IH by simp
qed

subsection \<open>Distinct blocks, aligned addresses\<close>

lemma well_formed_distinct:
  assumes "well_formed s bs fl"
  shows "distinct bs" "distinct fl"
proof -
  have "blocks_seg (heap_buffer s) 0 bs HEAP_SIZE" using assms by (simp add: well_formed_def)
  then show "distinct bs" by (rule blocks_seg_distinct)
  have "link_path (heap_buffer s) (free_list s) fl None" using assms by (simp add: well_formed_def)
  then show "distinct fl" by (rule link_path_distinct)
qed

lemma blocks_seg_aligned:
  "blocks_seg h a bs e \<Longrightarrow> a mod 8 = 0 \<Longrightarrow> (\<And>b. b \<in> set bs \<Longrightarrow> bsize (h b) mod 8 = 0) \<Longrightarrow>
   b \<in> set bs \<Longrightarrow> b mod 8 = 0"
proof (induction bs arbitrary: a)
  case Nil
  then show ?case by simp
next
  case (Cons x bs)
  show ?case
  proof (cases "b = x")
    case True
    then show ?thesis using Cons.prems by simp
  next
    case False
    have "(a + bsize (h x)) mod 8 = 0"
      using Cons.prems(2) Cons.prems(3)[of x] by simp presburger
    then show ?thesis
      using Cons.IH[of "a + bsize (h x)"] Cons.prems False by auto
  qed
qed

subsection \<open>The counters on a well-formed heap\<close>

lemma blocks_seg_sum:
  "blocks_seg h a bs e \<Longrightarrow> sum_list (map (\<lambda>b. bsize (h b)) bs) = e - a"
  by (induction bs arbitrary: a) auto

lemma payload_sum_filter_le:
  "(\<And>b. b \<in> set bs \<Longrightarrow> 24 \<le> bsize (h b)) \<Longrightarrow>
   0 \<le> sum_list (map (payload h) (filter P bs))
   \<and> sum_list (map (payload h) (filter P bs)) \<le> sum_list (map (\<lambda>b. bsize (h b)) bs)"
proof (induction bs)
  case Nil
  then show ?case by simp
next
  case (Cons x bs)
  then have "0 \<le> sum_list (map (payload h) (filter P bs))
     \<and> sum_list (map (payload h) (filter P bs)) \<le> sum_list (map (\<lambda>b. bsize (h b)) bs)" by simp
  moreover have "0 \<le> payload h x" "payload h x \<le> bsize (h x)"
    using Cons.prems[of x] by (simp_all add: payload_def sizeof_BlockHeader_def)
  ultimately show ?case by simp
qed

lemma free_walk_path:
  "link_path h cur xs None \<Longrightarrow> 0 \<le> acc \<Longrightarrow> (\<And>x. x \<in> set xs \<Longrightarrow> 24 \<le> bsize (h x)) \<Longrightarrow>
   acc + sum_list (map (payload h) xs) < 2 ^ 64 \<Longrightarrow>
   free_walk h acc cur = Some (acc + sum_list (map (payload h) xs))"
proof (induction xs arbitrary: acc cur)
  case Nil
  then show ?case by (subst free_walk.simps) simp
next
  case (Cons x xs)
  from Cons.prems(1) have c: "cur = Some x" and p: "link_path h (bnext (h x)) xs None" by auto
  have rest: "0 \<le> sum_list (map (payload h) xs)"
    using payload_sum_filter_le[of xs h "\<lambda>_. True"] Cons.prems(3) by simp
  have x: "0 \<le> payload h x" using Cons.prems(3)[of x] by (simp add: payload_def sizeof_BlockHeader_def)
  have px: "bsize (h x) - sizeof_BlockHeader = payload h x" by (simp add: payload_def)
  have "acc + payload h x < 2 ^ 64" using Cons.prems(4) rest by simp
  then have w: "wrap (acc + wrap (bsize (h x) - sizeof_BlockHeader)) = acc + payload h x"
    using Cons.prems(2) x unfolding px by (simp add: wrap_def)
  have "free_walk h (acc + payload h x) (bnext (h x))
          = Some (acc + payload h x + sum_list (map (payload h) xs))"
    using Cons.prems(2,3,4) x by (intro Cons.IH[OF p]) auto
  then show ?case using c w by (subst free_walk.simps) (simp add: add.assoc)
qed

lemma count_walk_path:
  "link_path h cur xs None \<Longrightarrow> 0 \<le> acc \<Longrightarrow> acc + int (length xs) < 2 ^ 64 \<Longrightarrow>
   count_walk h acc cur = Some (acc + int (length xs))"
proof (induction xs arbitrary: acc cur)
  case Nil
  then show ?case by (subst count_walk.simps) simp
next
  case (Cons x xs)
  from Cons.prems(1) have c: "cur = Some x" and p: "link_path h (bnext (h x)) xs None" by auto
  have w: "wrap (acc + 1) = acc + 1" using Cons.prems(2,3) by (simp add: wrap_def)
  have "count_walk h (acc + 1) (bnext (h x)) = Some (acc + 1 + int (length xs))"
    using Cons.prems(2,3) by (intro Cons.IH[OF p]) auto
  then show ?case using c w by (subst count_walk.simps) (simp add: add.assoc)
qed

lemma used_walk_seg:
  "blocks_seg h a bs HEAP_SIZE \<Longrightarrow> 0 \<le> acc \<Longrightarrow> (\<And>b. b \<in> set bs \<Longrightarrow> 24 \<le> bsize (h b)) \<Longrightarrow>
   acc + sum_list (map (payload h) (filter (\<lambda>b. \<not> is_free (h b)) bs)) < 2 ^ 64 \<Longrightarrow>
   used_walk h acc a = Some (acc + sum_list (map (payload h) (filter (\<lambda>b. \<not> is_free (h b)) bs)))"
proof (induction bs arbitrary: acc a)
  case Nil
  then show ?case by (subst used_walk.simps) simp
next
  case (Cons x bs)
  from Cons.prems(1) have xa: "x = a" and seg: "blocks_seg h (a + bsize (h a)) bs HEAP_SIZE" by auto
  have lt: "a < HEAP_SIZE" using Cons.prems(1) by (rule blocks_seg_lt)
  have rest: "0 \<le> sum_list (map (payload h) (filter (\<lambda>b. \<not> is_free (h b)) bs))"
    using payload_sum_filter_le[of bs h] Cons.prems(3) by simp
  have x: "0 \<le> payload h a" using Cons.prems(3)[of a] xa by (simp add: payload_def sizeof_BlockHeader_def)
  have px: "bsize (h a) - sizeof_BlockHeader = payload h a" by (simp add: payload_def)
  define acc' where "acc' = (if \<not> is_free (h a) then acc + payload h a else acc)"
  have "\<not> is_free (h a) \<Longrightarrow> acc + payload h a < 2 ^ 64" using Cons.prems(4) rest xa by simp
  then have w: "(if \<not> is_free (h a) then wrap (acc + wrap (bsize (h a) - sizeof_BlockHeader)) else acc) = acc'"
    using Cons.prems(2) x unfolding px by (auto simp: wrap_def acc'_def)
  have "used_walk h acc' (a + bsize (h a))
          = Some (acc' + sum_list (map (payload h) (filter (\<lambda>b. \<not> is_free (h b)) bs)))"
    using Cons.prems(2,3,4) x xa by (intro Cons.IH[OF seg]) (auto simp: acc'_def)
  then show ?case using lt w xa by (subst used_walk.simps) (auto simp: acc'_def)
qed

lemma sum_list_same_set:
  "distinct xs \<Longrightarrow> distinct ys \<Longrightarrow> set xs = set ys \<Longrightarrow>
   sum_list (map f xs) = sum_list (map (f :: int \<Rightarrow> int) ys)"
  by (simp add: sum_list_distinct_conv_sum_set)

text \<open>On a well-formed heap the three counters return, with the values of the block list.\<close>

lemma counters_well_formed:
  assumes wf: "well_formed s bs fl"
  shows "get_used_memory s =
           Some (sum_list (map (payload (heap_buffer s)) (filter (\<lambda>b. \<not> is_free (heap_buffer s b)) bs)))"
    and "get_free_memory s =
           Some (sum_list (map (payload (heap_buffer s)) (filter (\<lambda>b. is_free (heap_buffer s b)) bs)))"
    and "get_fragmentation_count s = Some (int (length (filter (\<lambda>b. is_free (heap_buffer s b)) bs)))"
proof -
  define h where "h = heap_buffer s"
  have seg: "blocks_seg h 0 bs HEAP_SIZE"
    and path: "link_path h (free_list s) fl None"
    and setfl: "set fl = {b \<in> set bs. is_free (h b)}"
    using wf by (simp_all add: well_formed_def h_def)
  have ge: "\<And>b. b \<in> set bs \<Longrightarrow> 24 \<le> bsize (h b)"
    using well_formed_block_size(3)[OF wf] by (fastforce simp add: h_def)
  have tot: "sum_list (map (\<lambda>b. bsize (h b)) bs) = HEAP_SIZE" using blocks_seg_sum[OF seg] by simp
  have bound: "sum_list (map (payload h) (filter P bs)) < 2 ^ 64" for P
    using payload_sum_filter_le[of bs h P] ge tot by (simp add: HEAP_SIZE_def)
  show "get_used_memory s = Some (sum_list (map (payload (heap_buffer s))
          (filter (\<lambda>b. \<not> is_free (heap_buffer s b)) bs)))"
    using used_walk_seg[OF seg, of 0] ge bound by (simp add: get_used_memory_def h_def)
  have d: "distinct fl" "distinct bs" using well_formed_distinct[OF wf] by simp_all
  have fs: "set fl = set (filter (\<lambda>b. is_free (h b)) bs)" using setfl by auto
  have e: "sum_list (map (payload h) fl) = sum_list (map (payload h) (filter (\<lambda>b. is_free (h b)) bs))"
    using d fs by (intro sum_list_same_set) auto
  have gf: "\<And>x. x \<in> set fl \<Longrightarrow> 24 \<le> bsize (h x)" using ge setfl by auto
  show "get_free_memory s = Some (sum_list (map (payload (heap_buffer s))
          (filter (\<lambda>b. is_free (heap_buffer s b)) bs)))"
    using free_walk_path[OF path, of 0] gf bound[of "\<lambda>b. is_free (h b)"] e
    by (simp add: get_free_memory_def h_def)
  have len: "length fl = length (filter (\<lambda>b. is_free (h b)) bs)"
    using d fs by (metis distinct_card distinct_filter)
  have "int (length bs) \<le> sum_list (map (\<lambda>b. bsize (h b)) bs)"
    using ge
  proof (induction bs)
    case Nil
    then show ?case by simp
  next
    case (Cons x bs)
    then have "int (length bs) \<le> sum_list (map (\<lambda>b. bsize (h b)) bs)" "24 \<le> bsize (h x)"
      by simp_all
    then show ?case by simp
  qed
  moreover have "length fl \<le> length bs" unfolding len by simp
  ultimately have "int (length fl) < 2 ^ 64" using tot by (simp add: HEAP_SIZE_def)
  then show "get_fragmentation_count s = Some (int (length (filter (\<lambda>b. is_free (heap_buffer s b)) bs)))"
    using count_walk_path[OF path, of 0] len by (simp add: get_fragmentation_count_def h_def)
qed

lemma free_list_rows_path:
  "link_path h cur xs None \<Longrightarrow> free_list_rows h cur = Some (map (\<lambda>c. (c, bsize (h c))) xs)"
proof (induction xs arbitrary: cur)
  case Nil
  then show ?case by (subst free_list_rows.simps) simp
next
  case (Cons x xs)
  then have "cur = Some x" "free_list_rows h (bnext (h x)) = Some (map (\<lambda>c. (c, bsize (h c))) xs)"
    by auto
  then show ?case by (subst free_list_rows.simps) simp
qed

subsection \<open>A walk that does not advance\<close>

lemma used_walk_some:
  "used_walk h used current = Some y \<Longrightarrow> \<not> (current < HEAP_SIZE \<and> bsize (h current) = 0)"
proof (induction rule: used_walk.raw_induct[rotated 1, consumes 1])
  case (1 f h used current y)
  show ?case
  proof
    assume a: "current < HEAP_SIZE \<and> bsize (h current) = 0"
    with 1(2) have "f h
            (if \<not> is_free (h current)
             then wrap (used + wrap (bsize (h current) - sizeof_BlockHeader)) else used)
            current = Some y" by simp
    from 1(1)[OF this] a show False by simp
  qed
qed

lemma used_walk_stuck:
  "current < HEAP_SIZE \<Longrightarrow> bsize (h current) = 0 \<Longrightarrow> used_walk h used current = None"
  using used_walk_some[of h used current] by (cases "used_walk h used current") auto

subsection \<open>Evaluation on concrete heaps\<close>

text \<open>
  The definitions that evaluate a call on a concrete heap. The loops unfold by their
  defining equations, one iteration at a time, as far as the heap decides their tests.
\<close>

lemmas eval_defs = my_malloc_def my_free_def take_block_def split_block_def coalesce_block_def
  merge_next_def remove_from_free_list_def init_allocator_def align_size_def wrap_def
  get_min_block_size_def HEAP_SIZE_def ALIGN_SIZE_def sizeof_BlockHeader_def get_data_def
  get_header_def is_valid_ptr_def Let_def cleared_def zero_header_def
  malloc_search.simps find_link.simps find_prev_block.simps

text \<open>
  The request \<open>2^64 - 24\<close>: \<open>align_size\<close> returns it unchanged, and adding the 24 bytes
  of the header wraps around to a total size of 0. Every block is large enough for that,
  \<open>split_block\<close> computes \<open>new_block = block + 0\<close>, and the first block of the free list
  ends with size 0, in use, and still on the free list.
\<close>

lemma overflow_request:
  "my_malloc init_allocator 18446744073709551592 =
   Some (Some 24, \<lparr>heap_buffer = cleared(0 := \<lparr>bsize = 0, is_free = False, bnext = None\<rparr>),
                   free_list = Some 0\<rparr>)"
  by (simp add: eval_defs)

subsection \<open>Two scenarios of the specification\<close>

text \<open>
  Scenario 2: after \<open>my_malloc\<close> of 100, 200 and 50 bytes and the release of the second
  pointer, a request of 150 bytes returns the address of the second pointer again.
\<close>

lemma scenario_reuse:
  "Option.bind (my_malloc init_allocator 100) (\<lambda>(a, s1).
   Option.bind (my_malloc s1 200) (\<lambda>(b, s2).
   Option.bind (my_malloc s2 50) (\<lambda>(c, s3).
   Option.bind (my_free s3 b) (\<lambda>(r1, s4).
   Option.bind (my_malloc s4 150) (\<lambda>(d, s5).
   Option.bind (get_used_memory s5) (\<lambda>used.
   Some ([a, b, c, d], r1, used)))))))
   = Some ([Some 24, Some 152, Some 376, Some 152], Released, 312)"
  by (simp add: eval_defs get_used_memory_def used_walk.simps)

text \<open>
  Scenario 4: four blocks A, B, C, D are allocated; after the release of B, D and A the
  fragmentation count is 2, and after the release of C it is 1, with all the region but
  one header free.
\<close>

lemma scenario_four_blocks:
  "Option.bind (my_malloc init_allocator 100) (\<lambda>(a, s1).
   Option.bind (my_malloc s1 100) (\<lambda>(b, s2).
   Option.bind (my_malloc s2 100) (\<lambda>(c, s3).
   Option.bind (my_malloc s3 100) (\<lambda>(d, s4).
   Option.bind (my_free s4 b) (\<lambda>(r1, s5).
   Option.bind (my_free s5 d) (\<lambda>(r2, s6).
   Option.bind (my_free s6 a) (\<lambda>(r3, s7).
   Option.bind (get_fragmentation_count s7) (\<lambda>k2.
   Option.bind (my_free s7 c) (\<lambda>(r4, s8).
   Option.bind (get_fragmentation_count s8) (\<lambda>k1.
   Option.bind (get_free_memory s8) (\<lambda>fr.
   Some ([a, b, c, d], k2, k1, fr))))))))))))
   = Some ([Some 24, Some 152, Some 280, Some 408], 2, 1, 1048552)"
  by (simp add: eval_defs get_fragmentation_count_def get_free_memory_def
      count_walk.simps free_walk.simps)

subsection \<open>Sequences of calls with requests in range\<close>

text \<open>
  With every request at most \<open>2^64 - 32\<close>, what the specification says about all
  reachable states holds: once every live pointer has been released there is one free
  block over the whole region; a split conserves the size and happens exactly when the
  remainder is at least a header and one alignment unit; the diagnostics return, and so
  does the release of a live pointer.
\<close>

lemma no_adjacent_all_free:
  "no_adjacent_free h bs \<Longrightarrow> (\<And>b. b \<in> set bs \<Longrightarrow> is_free (h b)) \<Longrightarrow> length bs \<le> 1"
  by (cases bs; cases "tl bs") auto

lemma full_circle_in_range:
  assumes "reach s Map.empty"
  shows "get_fragmentation_count s = Some 1"
    and "get_free_memory s = Some (HEAP_SIZE - sizeof_BlockHeader)"
    and "get_used_memory s = Some 0"
proof -
  from reach_well_formed[OF assms] obtain bs fl where wf: "well_formed s bs fl"
    and lv: "live_blocks s bs Map.empty" by blast
  have allfree: "\<And>b. b \<in> set bs \<Longrightarrow> is_free (heap_buffer s b)"
  proof -
    fix b assume "b \<in> set bs"
    then show "is_free (heap_buffer s b)"
      using lv unfolding live_blocks_def get_header_def
      by (auto dest!: spec[of _ "b + sizeof_BlockHeader"])
  qed
  have seg: "blocks_seg (heap_buffer s) 0 bs HEAP_SIZE"
    and naf: "no_adjacent_free (heap_buffer s) bs"
    using wf by (simp_all add: well_formed_def)
  have "length bs \<le> 1" using naf allfree by (rule no_adjacent_all_free)
  moreover have "bs \<noteq> []" using seg by (auto simp: HEAP_SIZE_def)
  ultimately obtain b where bs: "bs = [b]" by (cases bs) auto
  with seg have b: "b = 0" "bsize (heap_buffer s 0) = HEAP_SIZE" by auto
  have f: "is_free (heap_buffer s 0)" using allfree bs b by simp
  note c = counters_well_formed[OF wf]
  show "get_fragmentation_count s = Some 1" using c(3) bs b f by simp
  show "get_free_memory s = Some (HEAP_SIZE - sizeof_BlockHeader)"
    using c(2) bs b f by (simp add: payload_def)
  show "get_used_memory s = Some 0" using c(1) bs b f by simp
qed

lemma split_block_in_range:
  assumes n: "1 \<le> n" "n \<le> 2 ^ 64 - 32"
    and fit: "sizeof_BlockHeader + align_size n \<le> bsize (heap_buffer s c)"
    and le: "bsize (heap_buffer s c) \<le> HEAP_SIZE"
  shows "splits s c n \<longleftrightarrow>
           \<not> bsize (heap_buffer s c) - (sizeof_BlockHeader + align_size n) < sizeof_BlockHeader + ALIGN_SIZE"
    and "get_min_block_size = sizeof_BlockHeader + ALIGN_SIZE"
    and "\<not> splits s c n \<Longrightarrow> split_block s c n = s"
    and "splits s c n \<Longrightarrow>
           bsize (heap_buffer (split_block s c n) c)
           + bsize (heap_buffer (split_block s c n) (c + (sizeof_BlockHeader + align_size n)))
           = bsize (heap_buffer s c)"
proof -
  have fit': "24 + align_size n \<le> bsize (heap_buffer s c)" using fit by (simp add: sizeof_BlockHeader_def)
  note sc = split_cond[OF n le fit']
  have w: "wrap (sizeof_BlockHeader + align_size n) = sizeof_BlockHeader + align_size n"
    using total_size_eq(1)[OF n] by (simp add: sizeof_BlockHeader_def)
  have t: "32 \<le> sizeof_BlockHeader + align_size n"
    using total_size_eq(2)[OF n] by (simp add: sizeof_BlockHeader_def)
  show "splits s c n \<longleftrightarrow>
           \<not> bsize (heap_buffer s c) - (sizeof_BlockHeader + align_size n) < sizeof_BlockHeader + ALIGN_SIZE"
    using sc by (auto simp: sizeof_BlockHeader_def ALIGN_SIZE_def)
  show "get_min_block_size = sizeof_BlockHeader + ALIGN_SIZE"
    by (simp add: get_min_block_size_eq sizeof_BlockHeader_def ALIGN_SIZE_def)
  show "\<not> splits s c n \<Longrightarrow> split_block s c n = s"
    by (simp add: splits_def split_block_def Let_def)
  assume sp: "splits s c n"
  have "wrap (bsize (heap_buffer s c) - (sizeof_BlockHeader + align_size n))
          = bsize (heap_buffer s c) - (sizeof_BlockHeader + align_size n)"
    using fit le t by (simp add: wrap_def HEAP_SIZE_def)
  then show "bsize (heap_buffer (split_block s c n) c)
           + bsize (heap_buffer (split_block s c n) (c + (sizeof_BlockHeader + align_size n)))
           = bsize (heap_buffer s c)"
    using sp t unfolding splits_def split_block_def Let_def w by simp
qed

lemma diagnostics_return:
  assumes "reach s live"
  shows "get_used_memory s \<noteq> None" "get_free_memory s \<noteq> None"
    "get_fragmentation_count s \<noteq> None" "print_heap_state s \<noteq> None"
proof -
  from reach_well_formed[OF assms] obtain bs fl where wf: "well_formed s bs fl" by blast
  note c = counters_well_formed[OF wf]
  have "link_path (heap_buffer s) (free_list s) fl None" using wf by (simp add: well_formed_def)
  note r = free_list_rows_path[OF this]
  show "get_used_memory s \<noteq> None" "get_free_memory s \<noteq> None"
    "get_fragmentation_count s \<noteq> None" using c by simp_all
  show "print_heap_state s \<noteq> None" using c r by (simp add: print_heap_state_def)
qed

lemma release_returns:
  assumes "reach s live" "live p = Some n"
  shows "\<exists>s'. my_free s (Some p) = Some (Released, s')"
proof -
  from reach_well_formed[OF assms(1)] obtain bs fl where wf: "well_formed s bs fl"
    and lv: "live_blocks s bs live" by blast
  have "get_header p \<in> set bs" "\<not> is_free (heap_buffer s (get_header p))"
    using lv assms(2) unfolding live_blocks_def by blast+
  then obtain xs ys where bs: "bs = xs @ get_header p # ys" by (auto dest: split_list)
  from my_free_well_formed[OF wf[unfolded bs] \<open>\<not> is_free (heap_buffer s (get_header p))\<close> refl refl]
  show ?thesis by (auto simp: get_header_def sizeof_BlockHeader_def)
qed

section \<open>The claims\<close>

subsection \<open>What an allocation returns\<close>

text \<open>
  C1, as stated, asks for exactly \<open>align_size n\<close> usable bytes behind the pointer. On the
  fresh heap the request 1048544 is not split, because the remainder of 8 bytes is
  smaller than the minimum block: the whole block of 1048576 bytes is handed out, and the
  bytes after its header are 1048552, not 1048544.
\<close>

theorem allocation_exact_size_counterexample:
  "my_malloc init_allocator 1048544 =
     Some (Some 24, \<lparr>heap_buffer = cleared(0 := \<lparr>bsize = 1048576, is_free = False, bnext = None\<rparr>),
                     free_list = None\<rparr>)
   \<and> align_size 1048544 = 1048544
   \<and> usable \<lparr>heap_buffer = cleared(0 := \<lparr>bsize = 1048576, is_free = False, bnext = None\<rparr>),
             free_list = None\<rparr> 24 = 1048552"
  by (simp add: eval_defs usable_def)

text \<open>
  C1, amended. After \<open>init_allocator\<close> and any sequence of calls in which every request
  is at most \<open>2^64 - 32\<close> and every release is of a live pointer (or is ignored or
  refused), \<open>my_malloc n\<close> with \<open>1 \<le> n \<le> 2^64 - 32\<close> returns. If the pointer \<open>p\<close> it
  returns is not null, then \<open>p\<close> is a multiple of 8 bytes from the start of the region;
  the block behind \<open>p\<close> lies in the region and has \<open>usable\<close> bytes after its header, at
  least \<open>align_size n\<close>: exactly \<open>align_size n\<close> when the block was split, and less than
  \<open>align_size n\<close> plus the minimum block size when the whole block was handed out;
  \<open>p\<close> was not live before; and for every live pointer \<open>q\<close>, requested with size \<open>m\<close>,
  the block of \<open>q\<close> still has at least \<open>align_size m\<close> bytes, the two blocks (header and
  bytes) do not overlap, and so neither do \<open>[p, p + align_size n)\<close> and
  \<open>[q, q + align_size m)\<close>.
\<close>

theorem allocation_is_disjoint:
  assumes r: "reach s live" and n: "1 \<le> n" "n \<le> 2 ^ 64 - 32"
  shows "\<exists>r s'. my_malloc s n = Some (r, s') \<and>
     (\<forall>p. r = Some p \<longrightarrow>
        p mod ALIGN_SIZE = 0
        \<and> align_size n \<le> usable s' p
        \<and> (splits s (get_header p) n \<longrightarrow> usable s' p = align_size n)
        \<and> (\<not> splits s (get_header p) n \<longrightarrow> usable s' p < align_size n + get_min_block_size)
        \<and> 0 \<le> get_header p \<and> p + usable s' p \<le> HEAP_SIZE
        \<and> live p = None
        \<and> (\<forall>q m. live q = Some m \<longrightarrow>
              align_size m \<le> usable s' q
              \<and> (q + usable s' q \<le> get_header p \<or> p + usable s' p \<le> get_header q)
              \<and> (q + align_size m \<le> p \<or> p + align_size n \<le> q)))"
proof -
  from reach_well_formed[OF r] obtain bs fl where wf: "well_formed s bs fl"
    and lv: "live_blocks s bs live" by blast
  have dom: "\<And>p. (p \<in> dom live) = (p - 24 \<in> set bs \<and> \<not> is_free (heap_buffer s (p - 24)))"
    and sz: "\<And>p k. live p = Some k \<Longrightarrow> 1 \<le> k \<and> k \<le> 2 ^ 64 - 32 \<and>
         24 + align_size k \<le> bsize (heap_buffer s (p - 24))"
    using lv by (auto simp: live_blocks_def get_header_def sizeof_BlockHeader_def)
  have seg: "blocks_seg (heap_buffer s) 0 bs HEAP_SIZE"
    and setfl: "set fl = {b \<in> set bs. is_free (heap_buffer s b)}"
    using wf by (simp_all add: well_formed_def)
  have al: "\<And>b. b \<in> set bs \<Longrightarrow> b mod 8 = 0"
    using blocks_seg_aligned[OF seg] well_formed_block_size(6)[OF wf] by simp
  have a0: "0 \<le> align_size n" using align_size_bounds(1)[of n] n by simp
  \<comment> \<open>what both successful cases share\<close>
  have common: ?thesis
    if m: "my_malloc s n = Some (Some (c + 24), s')"
      and bs: "bs = xs @ c # ys"
      and cfree: "is_free (heap_buffer s c)"
      and B: "\<And>a. a \<noteq> c \<Longrightarrow> a \<in> set bs \<Longrightarrow> bsize (heap_buffer s' a) = bsize (heap_buffer s a)"
      and Bc: "24 + align_size n \<le> bsize (heap_buffer s' c)" "bsize (heap_buffer s' c) \<le> bsize (heap_buffer s c)"
      and sp: "splits s c n \<Longrightarrow> bsize (heap_buffer s' c) = 24 + align_size n"
      and nsp: "\<not> splits s c n \<Longrightarrow> bsize (heap_buffer s' c) < 24 + align_size n + 32"
    for c s' xs ys
  proof -
    have cin: "c \<in> set bs" using bs by simp
    have c8: "c mod 8 = 0" using al[OF cin] .
    have cb: "0 \<le> c" "c + bsize (heap_buffer s c) \<le> HEAP_SIZE"
      using well_formed_block_size(1,4)[OF wf cin] by simp_all
    have notlive: "live (c + 24) = None" using dom[of "c + 24"] cfree by auto
    have others: "align_size k \<le> bsize (heap_buffer s' (q - 24)) - 24
              \<and> (q + (bsize (heap_buffer s' (q - 24)) - 24) \<le> c
                  \<or> c + 24 + (bsize (heap_buffer s' c) - 24) \<le> q - 24)
              \<and> (q + align_size k \<le> c + 24 \<or> c + 24 + align_size n \<le> q)"
      if l: "live q = Some k" for q k
    proof -
      have qin: "q - 24 \<in> set bs" and qu: "\<not> is_free (heap_buffer s (q - 24))"
        using dom[of q] l by auto
      then have qc: "q - 24 \<noteq> c" using cfree by auto
      have e: "bsize (heap_buffer s' (q - 24)) = bsize (heap_buffer s (q - 24))"
        using B[OF qc qin] .
      have k: "24 + align_size k \<le> bsize (heap_buffer s (q - 24))" using sz[OF l] by simp
      from qin qc have "q - 24 \<in> set xs \<or> q - 24 \<in> set ys" by (auto simp: bs)
      then show ?thesis
      proof
        assume "q - 24 \<in> set xs"
        from blocks_seg_before[OF seg[unfolded bs] this]
        have "q - 24 + bsize (heap_buffer s (q - 24)) \<le> c" .
        then show ?thesis using e k by simp
      next
        assume "q - 24 \<in> set ys"
        from blocks_seg_after[OF seg[unfolded bs] this]
        have "c + bsize (heap_buffer s c) \<le> q - 24" .
        then show ?thesis using e k Bc by simp
      qed
    qed
    have Q: "\<forall>q m. live q = Some m \<longrightarrow>
              align_size m \<le> usable s' q
              \<and> (q + usable s' q \<le> get_header (c + 24) \<or> c + 24 + usable s' (c + 24) \<le> get_header q)
              \<and> (q + align_size m \<le> c + 24 \<or> c + 24 + align_size n \<le> q)"
    proof (intro allI impI)
      fix q m assume l: "live q = Some m"
      from others[OF l]
      show "align_size m \<le> usable s' q
              \<and> (q + usable s' q \<le> get_header (c + 24) \<or> c + 24 + usable s' (c + 24) \<le> get_header q)
              \<and> (q + align_size m \<le> c + 24 \<or> c + 24 + align_size n \<le> q)"
        unfolding usable_def get_header_def sizeof_BlockHeader_def by simp
    qed
    have "(c + 24) mod 8 = 0" using c8 by presburger
    then have "(c + 24) mod ALIGN_SIZE = 0
        \<and> align_size n \<le> usable s' (c + 24)
        \<and> (splits s (get_header (c + 24)) n \<longrightarrow> usable s' (c + 24) = align_size n)
        \<and> (\<not> splits s (get_header (c + 24)) n \<longrightarrow> usable s' (c + 24) < align_size n + get_min_block_size)
        \<and> 0 \<le> get_header (c + 24) \<and> c + 24 + usable s' (c + 24) \<le> HEAP_SIZE
        \<and> live (c + 24) = None"
      using cb Bc sp nsp notlive
      unfolding usable_def get_header_def sizeof_BlockHeader_def ALIGN_SIZE_def get_min_block_size_eq
      by auto
    with m Q show ?thesis
      by (intro exI[of _ "Some (c + 24)"] exI[of _ s']) simp
  qed
  from wf n show ?thesis
  proof (cases rule: my_malloc_well_formed)
    case oom
    then show ?thesis by auto
  next
    case (split xs c ys f1 f2 s')
    have cin: "c \<in> set bs" using split(1) by simp
    have cS: "bsize (heap_buffer s c) \<le> HEAP_SIZE" using well_formed_block_size(5)[OF wf cin] .
    have sp: "splits s c n" using split_cond[OF n cS] split(4) by simp
    have nbn: "c + (24 + align_size n) \<notin> set bs"
    proof -
      have "distinct (xs @ c # (c + (24 + align_size n)) # ys)"
        using split(6) by (rule well_formed_distinct)
      then show ?thesis using split(1) by auto
    qed
    show ?thesis
    proof (rule common[OF split(5) split(1)])
      show "is_free (heap_buffer s c)" using setfl split(2) by auto
      show "\<And>a. a \<noteq> c \<Longrightarrow> a \<in> set bs \<Longrightarrow> bsize (heap_buffer s' a) = bsize (heap_buffer s a)"
        using nbn by (auto simp: split(7))
      show "24 + align_size n \<le> bsize (heap_buffer s' c)" by (simp add: split(7))
      show "bsize (heap_buffer s' c) \<le> bsize (heap_buffer s c)" using split(4) by (simp add: split(7))
      show "splits s c n \<Longrightarrow> bsize (heap_buffer s' c) = 24 + align_size n" by (simp add: split(7))
      show "\<not> splits s c n \<Longrightarrow> bsize (heap_buffer s' c) < 24 + align_size n + 32" using sp by simp
    qed
  next
    case (whole xs c ys f1 f2 s')
    have cin: "c \<in> set bs" using whole(1) by simp
    have cS: "bsize (heap_buffer s c) \<le> HEAP_SIZE" using well_formed_block_size(5)[OF wf cin] .
    have sp: "\<not> splits s c n" using split_cond[OF n cS whole(4)] whole(5) by simp
    show ?thesis
    proof (rule common[OF whole(6) whole(1)])
      show "is_free (heap_buffer s c)" using setfl whole(2) by auto
      show "\<And>a. a \<noteq> c \<Longrightarrow> a \<in> set bs \<Longrightarrow> bsize (heap_buffer s' a) = bsize (heap_buffer s a)"
        by (simp add: whole(8))
      show "24 + align_size n \<le> bsize (heap_buffer s' c)" using whole(4) by (simp add: whole(8))
      show "bsize (heap_buffer s' c) \<le> bsize (heap_buffer s c)" by (simp add: whole(8))
      show "splits s c n \<Longrightarrow> bsize (heap_buffer s' c) = 24 + align_size n" using sp by simp
      show "\<not> splits s c n \<Longrightarrow> bsize (heap_buffer s' c) < 24 + align_size n + 32"
        using whole(5) by (simp add: whole(8))
    qed
  qed
qed

theorem allocation_is_disjoint_witness:
  "\<exists>r s'. my_malloc \<lparr>heap_buffer = cleared(128 := \<lparr>bsize = 1048448, is_free = True, bnext = None\<rparr>,
         0 := \<lparr>bsize = 128, is_free = False, bnext = None\<rparr>), free_list = Some 128\<rparr> 200 = Some (r, s') \<and>
     (\<forall>p. r = Some p \<longrightarrow>
        p mod 8 = 0 \<and> 200 \<le> usable s' p \<and> 0 \<le> get_header p \<and> p + usable s' p \<le> 1048576
        \<and> (24 + usable s' 24 \<le> get_header p \<or> p + usable s' p \<le> get_header 24)
        \<and> (24 + align_size 100 \<le> p \<or> p + align_size 200 \<le> 24))"
proof -
  define s where "s = \<lparr>heap_buffer = cleared(128 := \<lparr>bsize = 1048448, is_free = True, bnext = None\<rparr>,
         0 := \<lparr>bsize = 128, is_free = False, bnext = None\<rparr>), free_list = Some 128\<rparr>"
  have m: "my_malloc init_allocator 100 = Some (Some 24, s)"
    unfolding s_def by (simp add: eval_defs)
  have r: "reach s (Map.empty(24 \<mapsto> 100))"
    using reach.allocate[OF reach.init _ _ m] by simp
  have "\<exists>r s'. my_malloc s 200 = Some (r, s') \<and>
     (\<forall>p. r = Some p \<longrightarrow>
        p mod 8 = 0 \<and> 200 \<le> usable s' p \<and> 0 \<le> get_header p \<and> p + usable s' p \<le> 1048576
        \<and> (24 + usable s' 24 \<le> get_header p \<or> p + usable s' p \<le> get_header 24)
        \<and> (24 + align_size 100 \<le> p \<or> p + align_size 200 \<le> 24))"
  proof -
    have a: "align_size 200 = 200" by (simp add: align_size_def wrap_def ALIGN_SIZE_def)
    from allocation_is_disjoint[OF r, of 200]
    obtain r s' where m2: "my_malloc s 200 = Some (r, s')"
      and p: "\<And>p. r = Some p \<Longrightarrow> p mod ALIGN_SIZE = 0 \<and> align_size 200 \<le> usable s' p
        \<and> 0 \<le> get_header p \<and> p + usable s' p \<le> HEAP_SIZE
        \<and> (\<forall>q m. (Map.empty(24 \<mapsto> 100)) q = Some m \<longrightarrow>
              align_size m \<le> usable s' q
              \<and> (q + usable s' q \<le> get_header p \<or> p + usable s' p \<le> get_header q)
              \<and> (q + align_size m \<le> p \<or> p + align_size 200 \<le> q))"
      by auto
    have "p mod 8 = 0 \<and> 200 \<le> usable s' p \<and> 0 \<le> get_header p \<and> p + usable s' p \<le> 1048576
        \<and> (24 + usable s' 24 \<le> get_header p \<or> p + usable s' p \<le> get_header 24)
        \<and> (24 + align_size 100 \<le> p \<or> p + align_size 200 \<le> 24)" if "r = Some p" for p
    proof -
      note q = p[OF that]
      from q have "(Map.empty(24 \<mapsto> 100::int)) (24::int) = Some 100 \<longrightarrow>
              align_size 100 \<le> usable s' 24
              \<and> (24 + usable s' 24 \<le> get_header p \<or> p + usable s' p \<le> get_header 24)
              \<and> (24 + align_size 100 \<le> p \<or> p + align_size 200 \<le> 24)"
        by blast
      then show ?thesis using q by (simp add: a ALIGN_SIZE_def HEAP_SIZE_def)
    qed
    with m2 show ?thesis by blast
  qed
  then show ?thesis unfolding s_def .
qed

subsection \<open>Releasing twice\<close>

text \<open>
  C2 says that a second \<open>my_free\<close> of a pointer that was released and not handed out
  again reports a double free and changes nothing. The check of \<open>my_free\<close> is the flag
  in the header of the block. When the second call follows the first directly, nothing
  has been written near that header in between, and on every reachable heap the second
  call is refused:
\<close>

lemma release_twice_in_a_row:
  assumes "reach s live" "live p = Some n"
  shows "\<exists>s1. my_free s (Some p) = Some (Released, s1)
             \<and> my_free s1 (Some p) = Some (Double_Free, s1)"
proof -
  from reach_well_formed[OF assms(1)] obtain bs fl where wf: "well_formed s bs fl"
    and lv: "live_blocks s bs live" by blast
  have bin: "get_header p \<in> set bs" and used: "\<not> is_free (heap_buffer s (get_header p))"
    using lv assms(2) unfolding live_blocks_def by blast+
  then obtain xs ys where bs: "bs = xs @ get_header p # ys" by (auto dest: split_list)
  from my_free_well_formed[OF wf[unfolded bs] used refl refl]
  obtain s1 where r: "my_free s (Some (get_header p + 24)) = Some (Released, s1)"
    and f: "is_free (heap_buffer s1 (get_header p))" by auto
  have v: "is_valid_ptr (get_header p)"
    using well_formed_block_size(1,2)[OF wf bin] by (simp add: is_valid_ptr_def)
  have "my_free s1 (Some p) = Some (Double_Free, s1)" using v f by (simp add: my_free_def)
  then show ?thesis using r by (simp add: get_header_def sizeof_BlockHeader_def)
qed

text \<open>
  With other calls in between the claim fails in the buffer, in a way the store does
  not show. After \<open>a = my_malloc 16\<close>, \<open>p = my_malloc 8\<close>, \<open>my_free p\<close>, \<open>my_free a\<close> the
  whole region is one free block again, and the header of \<open>p\<close>, at 40, is left behind
  inside it with its flag set (byte 48). Then \<open>q = my_malloc 8\<close> splits at 32: the header
  of the new block occupies bytes 32 to 55, and the assignment
  \<open>new_block->next = block->next\<close> of \<open>split_block\<close> writes a null pointer over bytes
  48 to 55, the flag of the header at 40 among them. A second \<open>my_free p\<close> finds the flag
  cleared, prints nothing and goes on to relink the free list. The calls up to that
  point are evaluated here: \<open>p\<close> is 64 and is not handed out again (\<open>q\<close> is 24), block 0
  has 32 bytes, and the header of the new free block at 32 starts 8 bytes below the
  header of \<open>p\<close>.
\<close>

lemma header_written_over_released_header:
  "Option.bind (my_malloc init_allocator 16) (\<lambda>(a, s1).
   Option.bind (my_malloc s1 8) (\<lambda>(p, s2).
   Option.bind (my_free s2 p) (\<lambda>(r1, s3).
   Option.bind (my_free s3 a) (\<lambda>(r2, s4).
   Option.bind (my_malloc s4 8) (\<lambda>(q, s5).
   Some ([a, p, q], [r1, r2], free_list s5,
         bsize (heap_buffer s5 0), is_free (heap_buffer s5 0),
         is_free (heap_buffer s5 32), get_header 64))))))
   = Some ([Some 24, Some 64, Some 24], [Released, Released], Some 32,
           32, False, True, 40)"
  by (simp add: eval_defs)

subsection \<open>Release of a pointer outside the region\<close>

text \<open>
  C3. For every non-null pointer \<open>p\<close> whose header address \<open>p - sizeof(BlockHeader)\<close> lies
  outside \<open>[heap_buffer, heap_buffer + HEAP_SIZE)\<close>, \<open>my_free\<close> prints the invalid-pointer
  message, returns, and leaves every header and the free list as they were.
\<close>

theorem invalid_pointer_rejected:
  "\<not> is_valid_ptr (get_header p) \<Longrightarrow> my_free s (Some p) = Some (Invalid_Pointer, s)"
  by (simp add: my_free_def)

theorem invalid_pointer_rejected_witness:
  "my_free init_allocator (Some 1048600) = Some (Invalid_Pointer, init_allocator)
   \<and> my_free init_allocator (Some 16) = Some (Invalid_Pointer, init_allocator)"
  using invalid_pointer_rejected[of 1048600 init_allocator] invalid_pointer_rejected[of 16 init_allocator]
  by (simp add: is_valid_ptr_def get_header_def sizeof_BlockHeader_def HEAP_SIZE_def)


subsection \<open>Splitting\<close>

text \<open>
  C4 says that whenever an allocation splits a block, the sizes of the two resulting
  blocks add up to the size of the original. For requests of at most \<open>2^64 - 32\<close> that is
  \<open>split_block_in_range\<close>. At the request \<open>2^64 - 24\<close> on the fresh heap the total size
  wraps around to 0: \<open>split_block\<close> takes its splitting branch, the new block is the
  block itself, and the one header that is left has size 0 and links to itself, where
  the original had 1048576 bytes.
\<close>

theorem split_overflow:
  "wrap (sizeof_BlockHeader + align_size 18446744073709551592) = 0
   \<and> bsize (heap_buffer init_allocator 0) = 1048576
   \<and> splits init_allocator 0 18446744073709551592
   \<and> bsize (heap_buffer (split_block init_allocator 0 18446744073709551592) 0) = 0
   \<and> is_free (heap_buffer (split_block init_allocator 0 18446744073709551592) 0)
   \<and> bnext (heap_buffer (split_block init_allocator 0 18446744073709551592) 0) = Some 0"
  by (simp add: eval_defs splits_def)

subsection \<open>Coalescing\<close>

text \<open>
  C5. On a well-formed heap, releasing a block in use whose neighbours in address order
  include free blocks returns, and afterwards the released block and its free neighbours
  are one free block: it starts at the free predecessor if there is one (else at the
  released block), its size is the sum of the sizes merged, it is on the free list once,
  the blocks it absorbed are not on the free list, the other blocks keep their size and
  flag, and the heap is well formed again (so the merged block has no free neighbour).
\<close>

theorem release_coalesces:
  assumes wf: "well_formed s (xs @ b # ys) fl" and used: "\<not> is_free (heap_buffer s b)"
  shows "\<exists>s' fl'. my_free s (Some (get_data b)) = Some (Released, s')
     \<and> well_formed s' (merged_blocks s xs b ys) fl'
     \<and> is_free (heap_buffer s' (merged_start s xs b))
     \<and> bsize (heap_buffer s' (merged_start s xs b)) = merged_size s xs b ys
     \<and> merged_start s xs b \<in> set fl' \<and> distinct fl'
     \<and> (free_before s xs \<longrightarrow> b \<notin> set fl')
     \<and> (free_after s ys \<longrightarrow> hd ys \<notin> set fl')
     \<and> (\<forall>a \<in> set (merged_blocks s xs b ys). a \<noteq> merged_start s xs b \<longrightarrow>
           bsize (heap_buffer s' a) = bsize (heap_buffer s a)
           \<and> is_free (heap_buffer s' a) = is_free (heap_buffer s a))"
proof -
  define P where "P = free_before s xs"
  define N where "N = free_after s ys"
  define m where "m = merged_start s xs b"
  define bs' where "bs' = merged_blocks s xs b ys"
  have Pd: "P = (xs \<noteq> [] \<and> is_free (heap_buffer s (last xs)))" by (simp add: P_def free_before_def)
  have Nd: "N = (ys \<noteq> [] \<and> is_free (heap_buffer s (hd ys)))" by (simp add: N_def free_after_def)
  have md: "m = (if P then last xs else b)" by (simp add: m_def merged_start_def P_def)
  have bd: "bs' = (if P then butlast xs else xs) @ m # (if N then tl ys else ys)"
    by (simp add: bs'_def merged_blocks_def P_def N_def m_def)
  from my_free_well_formed[OF wf used Pd Nd]
  obtain s' fl' where r: "my_free s (Some (b + 24)) = Some (Released, s')"
    and wf': "well_formed s' bs' fl'"
    and F: "\<And>a. is_free (heap_buffer s' a) = (a = b \<or> is_free (heap_buffer s a))"
    and B: "\<And>a. bsize (heap_buffer s' a) =
           (if a = b \<and> N then bsize (heap_buffer s b) + bsize (heap_buffer s (hd ys))
            else if P \<and> a = last xs
              then bsize (heap_buffer s (last xs)) + bsize (heap_buffer s b)
                   + (if N then bsize (heap_buffer s (hd ys)) else 0)
            else bsize (heap_buffer s a))"
    unfolding bd md by blast
  have dist: "distinct (xs @ b # ys)" using wf by (rule well_formed_distinct)
  have dist': "distinct bs'" using wf' by (rule well_formed_distinct)
  have setfl': "set fl' = {x \<in> set bs'. is_free (heap_buffer s' x)}"
    and path': "link_path (heap_buffer s') (free_list s') fl' None"
    using wf' by (simp_all add: well_formed_def)
  have lastb: "P \<Longrightarrow> last xs \<noteq> b" using dist last_in_set[of xs] by (auto simp: Pd)
  have mfree: "is_free (heap_buffer s' m)" by (auto simp: F md Pd)
  have msize: "bsize (heap_buffer s' m) = merged_size s xs b ys"
    using lastb by (auto simp: B md merged_size_def P_def[symmetric] N_def[symmetric])
  have min: "m \<in> set fl'" using mfree by (simp add: setfl' bd)
  have dfl: "distinct fl'" using wf' by (rule well_formed_distinct)
  have bout: "b \<notin> set bs'" if P
  proof -
    have "b \<notin> set (butlast xs)" using dist by (auto dest: in_set_butlastD)
    moreover have "b \<notin> set (if N then tl ys else ys)"
      using dist by (cases ys) (auto dest: list.set_sel(2))
    ultimately show ?thesis using that lastb by (simp add: bd md)
  qed
  have nout: "hd ys \<notin> set bs'" if N
  proof -
    from that obtain y ys' where ys: "ys = y # ys'" by (cases ys) (auto simp: Nd)
    then have "y \<notin> set xs" "y \<noteq> b" "y \<notin> set ys'" using dist by auto
    moreover have "y \<noteq> m" using \<open>y \<notin> set xs\<close> \<open>y \<noteq> b\<close> last_in_set[of xs] by (auto simp: md Pd)
    ultimately show ?thesis using that ys by (auto simp: bd dest: in_set_butlastD)
  qed
  have other: "bsize (heap_buffer s' a) = bsize (heap_buffer s a)
           \<and> is_free (heap_buffer s' a) = is_free (heap_buffer s a)"
    if "a \<in> set bs'" "a \<noteq> m" for a
  proof -
    have "a \<noteq> b" using that bout by (cases P) (auto simp: md)
    moreover have "\<not> (P \<and> a = last xs)" using that by (auto simp: md)
    ultimately show ?thesis unfolding B F by auto
  qed
  have bout': "P \<longrightarrow> b \<notin> set fl'" and nout': "N \<longrightarrow> hd ys \<notin> set fl'"
    using bout nout by (auto simp: setfl')
  have other': "\<forall>a \<in> set bs'. a \<noteq> m \<longrightarrow>
           bsize (heap_buffer s' a) = bsize (heap_buffer s a)
           \<and> is_free (heap_buffer s' a) = is_free (heap_buffer s a)"
    using other by blast
  have "my_free s (Some (get_data b)) = Some (Released, s')"
    using r by (simp add: get_data_def sizeof_BlockHeader_def)
  then show ?thesis
    using wf' mfree msize min dfl bout' nout' other'
    unfolding P_def N_def m_def bs'_def by blast
qed

theorem release_coalesces_witness:
  "\<exists>s' fl'. my_free
       \<lparr>heap_buffer = cleared(0 := \<lparr>bsize = 32, is_free = True, bnext = Some 64\<rparr>,
                                32 := \<lparr>bsize = 32, is_free = False, bnext = None\<rparr>,
                                64 := \<lparr>bsize = 1048512, is_free = True, bnext = None\<rparr>),
        free_list = Some 0\<rparr> (Some 56) = Some (Released, s')
     \<and> well_formed s' [0] fl' \<and> is_free (heap_buffer s' 0) \<and> bsize (heap_buffer s' 0) = 1048576
     \<and> 0 \<in> set fl' \<and> distinct fl' \<and> 32 \<notin> set fl' \<and> 64 \<notin> set fl'"
proof -
  define s where "s = \<lparr>heap_buffer = cleared(0 := \<lparr>bsize = 32, is_free = True, bnext = Some 64\<rparr>,
                                32 := \<lparr>bsize = 32, is_free = False, bnext = None\<rparr>,
                                64 := \<lparr>bsize = 1048512, is_free = True, bnext = None\<rparr>),
        free_list = Some 0\<rparr>"
  have wf: "well_formed s ([0] @ 32 # [64]) [0, 64]"
    by (auto simp: well_formed_def s_def HEAP_SIZE_def ALIGN_SIZE_def sizeof_BlockHeader_def)
  have u: "\<not> is_free (heap_buffer s 32)" by (simp add: s_def)
  have d: "free_before s [0]" "free_after s [64]" "merged_start s [0] 32 = 0"
    "merged_size s [0] 32 [64] = 1048576" "merged_blocks s [0] 32 [64] = [0]"
    by (simp_all add: free_before_def free_after_def merged_start_def merged_size_def
        merged_blocks_def s_def)
  have "\<exists>s' fl'. my_free s (Some 56) = Some (Released, s')
     \<and> well_formed s' [0] fl' \<and> is_free (heap_buffer s' 0) \<and> bsize (heap_buffer s' 0) = 1048576
     \<and> 0 \<in> set fl' \<and> distinct fl' \<and> 32 \<notin> set fl' \<and> 64 \<notin> set fl'"
    using release_coalesces[OF wf u] by (simp add: d get_data_def sizeof_BlockHeader_def)
  then show ?thesis unfolding s_def .
qed

subsection \<open>Allocation from the fresh heap\<close>

lemma my_malloc_init:
  assumes "1 \<le> n" "n \<le> HEAP_SIZE - sizeof_BlockHeader"
  shows "my_malloc init_allocator n = Some (take_block init_allocator n 0 None)"
proof -
  have n: "1 \<le> n" "n \<le> 2^64 - 32" using assms by (simp_all add: HEAP_SIZE_def sizeof_BlockHeader_def)
  have a: "align_size n < n + 8" "align_size n mod 8 = 0"
    using align_size_bounds[of n] n by simp_all
  have "(HEAP_SIZE - 24) mod 8 = 0" by (simp add: HEAP_SIZE_def)
  then have "align_size n \<le> HEAP_SIZE - 24" using a assms
    unfolding sizeof_BlockHeader_def HEAP_SIZE_def by presburger
  then have "wrap (sizeof_BlockHeader + align_size n) \<le> bsize (heap_buffer init_allocator 0)"
    using total_size_eq(1)[OF n] by (simp add: init_allocator_def)
  moreover have "free_list init_allocator = Some 0" by (simp add: init_allocator_def)
  ultimately have "malloc_search init_allocator n (wrap (sizeof_BlockHeader + align_size n))
      (free_list init_allocator) None = Some (take_block init_allocator n 0 None)"
    by (subst malloc_search.simps) simp
  then show ?thesis using n by (simp add: my_malloc_def Let_def)
qed

text \<open>
  C6. For every size \<open>n\<close> with \<open>1 \<le> n \<le> HEAP_SIZE - sizeof(BlockHeader)\<close>, \<open>my_malloc n\<close>
  right after \<open>init_allocator\<close> returns, and returns a non-null pointer: the data address
  of the block at the start of the region.
\<close>

theorem fresh_heap_allocates:
  "1 \<le> n \<Longrightarrow> n \<le> HEAP_SIZE - sizeof_BlockHeader \<Longrightarrow>
   \<exists>s'. my_malloc init_allocator n = Some (Some (get_data 0), s')"
  using my_malloc_init[of n] take_block_fst[of init_allocator n 0 None]
  by (cases "take_block init_allocator n 0 None") (simp add: get_data_def sizeof_BlockHeader_def)

theorem fresh_heap_allocates_witness:
  "\<exists>s'. my_malloc init_allocator (HEAP_SIZE - sizeof_BlockHeader) = Some (Some (get_data 0), s')"
  using fresh_heap_allocates[of "HEAP_SIZE - sizeof_BlockHeader"]
  by (simp add: HEAP_SIZE_def sizeof_BlockHeader_def)


subsection \<open>Releasing everything\<close>

text \<open>
  C7 says that once every allocation has been released the fragmentation count is 1 and
  the free memory is \<open>HEAP_SIZE\<close> minus one header. For requests of at most \<open>2^64 - 32\<close>
  that is \<open>full_circle_in_range\<close>. After the single request \<open>2^64 - 24\<close> on the fresh heap
  and the release of the pointer it returned, the free list holds one block of size 0,
  and \<open>get_free_memory\<close> returns \<open>0 - 24\<close> wrapped around, \<open>2^64 - 24\<close>.
\<close>

theorem full_circle_overflow:
  "my_malloc init_allocator 18446744073709551592 =
     Some (Some 24, \<lparr>heap_buffer = cleared(0 := \<lparr>bsize = 0, is_free = False, bnext = None\<rparr>),
                     free_list = Some 0\<rparr>)
   \<and> my_free \<lparr>heap_buffer = cleared(0 := \<lparr>bsize = 0, is_free = False, bnext = None\<rparr>),
              free_list = Some 0\<rparr> (Some 24) =
     Some (Released, \<lparr>heap_buffer = cleared(0 := \<lparr>bsize = 0, is_free = True, bnext = None\<rparr>),
                      free_list = Some 0\<rparr>)
   \<and> get_fragmentation_count \<lparr>heap_buffer = cleared(0 := \<lparr>bsize = 0, is_free = True, bnext = None\<rparr>),
              free_list = Some 0\<rparr> = Some 1
   \<and> get_free_memory \<lparr>heap_buffer = cleared(0 := \<lparr>bsize = 0, is_free = True, bnext = None\<rparr>),
              free_list = Some 0\<rparr> = Some 18446744073709551592"
  by (simp add: eval_defs get_free_memory_def get_fragmentation_count_def free_walk.simps count_walk.simps)

subsection \<open>Free list and free flags\<close>

text \<open>
  C8 says that in every reachable state a block is on the free list exactly when its
  flag is set. For requests of at most \<open>2^64 - 32\<close> that is part of \<open>reach_well_formed\<close>,
  and \<open>counters_well_formed\<close> gives the agreement of the two sums. After the request
  \<open>2^64 - 24\<close> on the fresh heap the block at the start of the region is the head of the
  free list and its flag says in use.
\<close>

theorem free_list_flag_overflow:
  "my_malloc init_allocator 18446744073709551592 =
     Some (Some 24, \<lparr>heap_buffer = cleared(0 := \<lparr>bsize = 0, is_free = False, bnext = None\<rparr>),
                     free_list = Some 0\<rparr>)
   \<and> free_list \<lparr>heap_buffer = cleared(0 := \<lparr>bsize = 0, is_free = False, bnext = None\<rparr>),
                 free_list = Some 0\<rparr> = Some 0
   \<and> \<not> is_free (heap_buffer \<lparr>heap_buffer = cleared(0 := \<lparr>bsize = 0, is_free = False, bnext = None\<rparr>),
                 free_list = Some 0\<rparr> 0)"
  by (simp add: eval_defs)

subsection \<open>Termination of the diagnostics\<close>

text \<open>
  C9 says that every diagnostic walk stops on a corrupted heap, by a bounded step
  counter. Only the layout loop of \<open>print_heap_state\<close> has that guard (\<open>layout_walk\<close> is a
  total function). \<open>get_used_memory\<close> has none: on a heap whose first block has size 0
  (the heap after the request \<open>2^64 - 24\<close>, or the zeroed buffer before \<open>init_allocator\<close>)
  it never advances, and \<open>print_heap_state\<close>, which calls it before its own loop, does
  not return either.
\<close>

theorem used_memory_walk_diverges:
  "my_malloc init_allocator 18446744073709551592 =
     Some (Some 24, \<lparr>heap_buffer = cleared(0 := \<lparr>bsize = 0, is_free = False, bnext = None\<rparr>),
                     free_list = Some 0\<rparr>)
   \<and> get_used_memory \<lparr>heap_buffer = cleared(0 := \<lparr>bsize = 0, is_free = False, bnext = None\<rparr>),
                     free_list = Some 0\<rparr> = None
   \<and> print_heap_state \<lparr>heap_buffer = cleared(0 := \<lparr>bsize = 0, is_free = False, bnext = None\<rparr>),
                     free_list = Some 0\<rparr> = None
   \<and> get_used_memory \<lparr>heap_buffer = cleared, free_list = None\<rparr> = None"
  using overflow_request
  by (simp add: get_used_memory_def print_heap_state_def used_walk_stuck HEAP_SIZE_def cleared_def zero_header_def)

subsection \<open>Free neighbours\<close>

text \<open>
  C10 says that in every reachable state no two blocks adjacent in address order are
  both free. For requests of at most \<open>2^64 - 32\<close> that is part of \<open>reach_well_formed\<close>.
  The calls \<open>p1 = my_malloc 8\<close>, \<open>p2 = my_malloc (2^64 - 24)\<close>, \<open>my_free p1\<close>,
  \<open>my_free p2\<close> on the fresh heap end with the block at 0, of size 32, free, and the
  header at its end, address 32, free as well.
\<close>

theorem adjacent_free_overflow:
  "my_malloc init_allocator 8 =
     Some (Some 24, \<lparr>heap_buffer = cleared(32 := \<lparr>bsize = 1048544, is_free = True, bnext = None\<rparr>,
                                          0 := \<lparr>bsize = 32, is_free = False, bnext = None\<rparr>),
                     free_list = Some 32\<rparr>)
   \<and> my_malloc \<lparr>heap_buffer = cleared(32 := \<lparr>bsize = 1048544, is_free = True, bnext = None\<rparr>,
                                          0 := \<lparr>bsize = 32, is_free = False, bnext = None\<rparr>),
                     free_list = Some 32\<rparr> 18446744073709551592 =
     Some (Some 56, \<lparr>heap_buffer = cleared(0 := \<lparr>bsize = 32, is_free = False, bnext = None\<rparr>,
                                          32 := \<lparr>bsize = 0, is_free = False, bnext = None\<rparr>),
                     free_list = Some 32\<rparr>)
   \<and> my_free \<lparr>heap_buffer = cleared(0 := \<lparr>bsize = 32, is_free = False, bnext = None\<rparr>,
                                          32 := \<lparr>bsize = 0, is_free = False, bnext = None\<rparr>),
                     free_list = Some 32\<rparr> (Some 24) =
     Some (Released, \<lparr>heap_buffer = cleared(32 := \<lparr>bsize = 0, is_free = False, bnext = None\<rparr>,
                                          0 := \<lparr>bsize = 32, is_free = True, bnext = Some 32\<rparr>),
                     free_list = Some 0\<rparr>)
   \<and> my_free \<lparr>heap_buffer = cleared(32 := \<lparr>bsize = 0, is_free = False, bnext = None\<rparr>,
                                          0 := \<lparr>bsize = 32, is_free = True, bnext = Some 32\<rparr>),
                     free_list = Some 0\<rparr> (Some 56) =
     Some (Released, \<lparr>heap_buffer = cleared(32 := \<lparr>bsize = 0, is_free = True, bnext = None\<rparr>,
                                          0 := \<lparr>bsize = 32, is_free = True, bnext = None\<rparr>),
                     free_list = Some 0\<rparr>)
   \<and> \<not> no_adjacent_free
         (cleared(32 := \<lparr>bsize = 0, is_free = True, bnext = None\<rparr>,
                  0 := \<lparr>bsize = 32, is_free = True, bnext = None\<rparr>)) [0, 32]"
  by (simp add: eval_defs)

end
